theory Spec2Isabelle
  imports Main "HOL-Library.Option_ord" "HOL-Library.Stream"
begin

unbundle bit_operations_syntax

section \<open>The data model of \<^verbatim>\<open>skiplist.hpp\<close>\<close>

text \<open>
  Nodes live in a heap. A pointer is an address (\<open>Some a\<close>) or null (\<open>None\<close>);
  the heap is the list of all cells ever allocated, a freed cell is \<open>None\<close>, and
  \<^verbatim>\<open>make_unique<Node>\<close> / \<^verbatim>\<open>new Node\<close> takes the next address.
  The fields of \<^verbatim>\<open>struct Node\<close> are \<^verbatim>\<open>down\<close>, \<^verbatim>\<open>next\<close>, \<^verbatim>\<open>k\<close> and
  \<^verbatim>\<open>v\<close>; they are called \<open>down\<close>, \<open>nxt\<close>, \<open>key\<close> and \<open>val\<close> here.
\<close>

type_synonym addr = nat

record ('k, 'v) node =
  down :: "addr option"
  nxt :: "addr option"
  key :: "'k option"
  val :: "'v option"

type_synonym ('k, 'v) heap = "('k, 'v) node option list"

text \<open>
  The state a member function runs in: the heap, the member \<^verbatim>\<open>heads\<close> of the
  index, and the outcomes of the future calls of \<^verbatim>\<open>rand()\<close>.
\<close>

record ('k, 'v) state =
  heap :: "('k, 'v) heap"
  heads :: "addr list"
  rnd :: "int stream"

text \<open>
  What C++ leaves undefined is a value of the model: following a pointer that is null or
  freed, reading \<^verbatim>\<open>heads[0]\<close> of an empty vector, and (in the atomic variant)
  loading a value cell that was never stored.
\<close>

datatype fault = InvalidPointer | OutOfRange | Uninitialised

definition deref :: "('k, 'v) heap \<Rightarrow> addr \<Rightarrow> ('k, 'v) node option" where
  "deref h a = (if a < length h then h ! a else None)"

definition alloc :: "('k, 'v) node \<Rightarrow> ('k, 'v) heap \<Rightarrow> addr \<times> ('k, 'v) heap" where
  "alloc n h = (length h, h @ [Some n])"

definition store :: "addr \<Rightarrow> (('k, 'v) node \<Rightarrow> ('k, 'v) node) \<Rightarrow> ('k, 'v) heap
    \<Rightarrow> fault + ('k, 'v) heap" where
  "store a f h =
     (case deref h a of
        None \<Rightarrow> Inl InvalidPointer
      | Some n \<Rightarrow> Inr (h[a := Some (f n)]))"

definition rand :: "('k, 'v) state \<Rightarrow> int \<times> ('k, 'v) state" where
  "rand s = (shd (rnd s), s\<lparr>rnd := stl (rnd s)\<rparr>)"

text \<open>The comparisons of a \<^verbatim>\<open>std::optional<TKey>\<close> with a \<^verbatim>\<open>TKey\<close>.\<close>

definition opt_gt :: "('k::linorder) option \<Rightarrow> 'k \<Rightarrow> bool" where
  "opt_gt ko k = (case ko of None \<Rightarrow> False | Some x \<Rightarrow> k < x)"

definition opt_eq :: "'k option \<Rightarrow> 'k \<Rightarrow> bool" where
  "opt_eq ko k = (case ko of None \<Rightarrow> False | Some x \<Rightarrow> x = k)"

definition opt_ne :: "'k option \<Rightarrow> 'k \<Rightarrow> bool" where
  "opt_ne ko k = (case ko of None \<Rightarrow> True | Some x \<Rightarrow> x \<noteq> k)"

definition has_value :: "'a option \<Rightarrow> bool" where
  "has_value x = (x \<noteq> None)"

section \<open>The sequential index (\<^verbatim>\<open>SkipList\<close>)\<close>

text \<open>
  A function that loops returns \<open>None\<close> when the loop never ends; otherwise
  \<open>Some (Inl f)\<close> for undefined behaviour and \<open>Some (Inr r)\<close> for a result.
  \<open>Option.bind\<close> passes on the \<open>None\<close> of a recursive call.
\<close>

partial_function (option) findInLevel ::
  "('k::linorder, 'v) heap \<Rightarrow> addr \<Rightarrow> 'k \<Rightarrow> (fault + addr) option" where
  "findInLevel h current k =
     (case deref h current of
        None \<Rightarrow> Some (Inl InvalidPointer)
      | Some c \<Rightarrow>
          (case nxt c of
             None \<Rightarrow> Some (Inr current)
           | Some n \<Rightarrow>
               (case deref h n of
                  None \<Rightarrow> Some (Inl InvalidPointer)
                | Some nn \<Rightarrow>
                    if opt_gt (key nn) k then Some (Inr current)
                    else findInLevel h n k)))"

definition chainNode :: "addr \<Rightarrow> addr \<Rightarrow> ('k, 'v) heap \<Rightarrow> fault + addr \<times> ('k, 'v) heap" where
  "chainNode previous newNode h =
     (case deref h previous of
        None \<Rightarrow> Inl InvalidPointer
      | Some p \<Rightarrow>
          (case store newNode (\<lambda>n. n\<lparr>nxt := nxt p\<rparr>) h of
             Inl e \<Rightarrow> Inl e
           | Inr h1 \<Rightarrow>
               (case store previous (\<lambda>n. n\<lparr>nxt := Some newNode\<rparr>) h1 of
                  Inl e \<Rightarrow> Inl e
                | Inr h2 \<Rightarrow> Inr (newNode, h2))))"

text \<open>Allocate a node and splice it after \<open>insertNode\<close>: the two insert branches.\<close>

definition insert_after :: "addr \<Rightarrow> ('k, 'v) node \<Rightarrow> ('k, 'v) state
    \<Rightarrow> (fault + addr option \<times> ('k, 'v) state) option" where
  "insert_after insertNode n s =
     (case alloc n (heap s) of
        (newNode, h1) \<Rightarrow>
          (case chainNode insertNode newNode h1 of
             Inl e \<Rightarrow> Some (Inl e)
           | Inr (r, h2) \<Rightarrow> Some (Inr (Some r, s\<lparr>heap := h2\<rparr>))))"

partial_function (option) upsertRec ::
  "('k::linorder, 'v) state \<Rightarrow> addr option \<Rightarrow> 'k \<Rightarrow> 'v
     \<Rightarrow> (fault + addr option \<times> ('k, 'v) state) option" where
  "upsertRec s current k v =
     (case current of
        None \<Rightarrow> Some (Inr (None, s))
      | Some cur \<Rightarrow>
          (case findInLevel (heap s) cur k of
             None \<Rightarrow> None
           | Some (Inl e) \<Rightarrow> Some (Inl e)
           | Some (Inr insertNode) \<Rightarrow>
               (case deref (heap s) insertNode of
                  None \<Rightarrow> Some (Inl InvalidPointer)
                | Some n \<Rightarrow>
                    if has_value (key n) \<and> opt_eq (key n) k then
                      Option.bind
                        (upsertRec
                           (s\<lparr>heap := (heap s)[insertNode := Some (n\<lparr>val := Some v\<rparr>)]\<rparr>)
                           (down n) k v)
                        (\<lambda>res. case res of
                           Inl e \<Rightarrow> Some (Inl e)
                         | Inr (r, s') \<Rightarrow> Some (Inr (None, s')))
                    else if \<not> has_value (down n) then
                      insert_after insertNode
                        \<lparr>down = None, nxt = None, key = Some k, val = Some v\<rparr> s
                    else
                      Option.bind (upsertRec s (down n) k v)
                        (\<lambda>res. case res of
                           Inl e \<Rightarrow> Some (Inl e)
                         | Inr (None, s') \<Rightarrow> Some (Inr (None, s'))
                         | Inr (Some childNode, s') \<Rightarrow>
                             (case rand s' of
                                (r, s'') \<Rightarrow>
                                  if r AND 1 \<noteq> 0 then
                                    insert_after insertNode
                                      \<lparr>down = Some childNode, nxt = None,
                                       key = Some k, val = Some v\<rparr> s''
                                  else Some (Inr (None, s'')))))))"

text \<open>
  The constructor: \<open>height\<close> sentinels, each linked below the one before it, pushed
  onto \<^verbatim>\<open>heads\<close> top first. \<open>prev\<close> is the sentinel of the previous round.
\<close>

fun SkipList_loop :: "nat \<Rightarrow> addr option \<Rightarrow> ('k, 'v) state \<Rightarrow> fault + ('k, 'v) state" where
  "SkipList_loop 0 prev s = Inr s"
| "SkipList_loop (Suc i) prev s =
     (case alloc \<lparr>down = None, nxt = None, key = None, val = None\<rparr> (heap s) of
        (newNode, h1) \<Rightarrow>
          (case (case prev of
                   None \<Rightarrow> Inr h1
                 | Some p \<Rightarrow> store p (\<lambda>n. n\<lparr>down := Some newNode\<rparr>) h1) of
             Inl e \<Rightarrow> Inl e
           | Inr h2 \<Rightarrow>
               SkipList_loop i (Some newNode)
                 (s\<lparr>heap := h2, heads := heads s @ [newNode]\<rparr>)))"

text \<open>A process in which no node is allocated yet and \<^verbatim>\<open>heads\<close> is empty.\<close>

definition fresh :: "int stream \<Rightarrow> ('k, 'v) state" where
  "fresh rs = \<lparr>heap = [], heads = [], rnd = rs\<rparr>"

definition SkipList :: "nat \<Rightarrow> int stream \<Rightarrow> fault + ('k, 'v) state" where
  "SkipList height rs = SkipList_loop height None (fresh rs)"

definition upsert :: "('k::linorder, 'v) state \<Rightarrow> 'k \<Rightarrow> 'v \<Rightarrow> (fault + ('k, 'v) state) option" where
  "upsert s k v =
     (case heads s of
        [] \<Rightarrow> Some (Inl OutOfRange)
      | head0 # rest \<Rightarrow>
          (case upsertRec s (Some head0) k v of
             None \<Rightarrow> None
           | Some (Inl e) \<Rightarrow> Some (Inl e)
           | Some (Inr (r, s')) \<Rightarrow> Some (Inr s')))"

text \<open>
  The loop of \<^verbatim>\<open>find\<close> together with the test after it. \<^verbatim>\<open>find\<close> is a member
  function too, so it is given the state and returns it with the result.
\<close>

partial_function (option) find_loop ::
  "('k::linorder, 'v) state \<Rightarrow> addr \<Rightarrow> 'k \<Rightarrow> (fault + 'v option \<times> ('k, 'v) state) option" where
  "find_loop s matchingNode k =
     (case deref (heap s) matchingNode of
        None \<Rightarrow> Some (Inl InvalidPointer)
      | Some n \<Rightarrow>
          (case down n of
             Some d \<Rightarrow>
               if has_value (key n) \<and> opt_eq (key n) k then Some (Inr (val n, s))
               else
                 (case findInLevel (heap s) d k of
                    None \<Rightarrow> None
                  | Some (Inl e) \<Rightarrow> Some (Inl e)
                  | Some (Inr m) \<Rightarrow> find_loop s m k)
           | None \<Rightarrow>
               if \<not> has_value (key n) \<or> opt_ne (key n) k then Some (Inr (None, s))
               else Some (Inr (val n, s))))"

definition find :: "('k::linorder, 'v) state \<Rightarrow> 'k \<Rightarrow> (fault + 'v option \<times> ('k, 'v) state) option" where
  "find s k =
     (case heads s of
        [] \<Rightarrow> Some (Inl OutOfRange)
      | head0 # rest \<Rightarrow>
          (case findInLevel (heap s) head0 k of
             None \<Rightarrow> None
           | Some (Inl e) \<Rightarrow> Some (Inl e)
           | Some (Inr m) \<Rightarrow> find_loop s m k))"

text \<open>
  \<^verbatim>\<open>clear\<close>: on each level the chain behind the sentinel is taken out of the sentinel
  and released node by node; \<^verbatim>\<open>heads.clear()\<close> then releases the sentinels.
\<close>

partial_function (option) clear_chain ::
  "('k, 'v) heap \<Rightarrow> addr option \<Rightarrow> (fault + ('k, 'v) heap) option" where
  "clear_chain h clearPointer =
     (case clearPointer of
        None \<Rightarrow> Some (Inr h)
      | Some a \<Rightarrow>
          (case deref h a of
             None \<Rightarrow> Some (Inl InvalidPointer)
           | Some n \<Rightarrow> clear_chain (h[a := None]) (nxt n)))"

fun clear_levels :: "addr list \<Rightarrow> ('k, 'v) heap \<Rightarrow> (fault + ('k, 'v) heap) option" where
  "clear_levels [] h = Some (Inr h)"
| "clear_levels (hd_i # rest) h =
     (case deref h hd_i of
        None \<Rightarrow> Some (Inl InvalidPointer)
      | Some n \<Rightarrow>
          (case clear_chain (h[hd_i := Some (n\<lparr>nxt := None\<rparr>)]) (nxt n) of
             None \<Rightarrow> None
           | Some (Inl e) \<Rightarrow> Some (Inl e)
           | Some (Inr h1) \<Rightarrow> clear_levels rest h1))"

fun release :: "addr list \<Rightarrow> ('k, 'v) heap \<Rightarrow> ('k, 'v) heap" where
  "release [] h = h"
| "release (a # as) h = release as (h[a := None])"

definition clear :: "('k, 'v) state \<Rightarrow> (fault + ('k, 'v) state) option" where
  "clear s =
     (case clear_levels (heads s) (heap s) of
        None \<Rightarrow> None
      | Some (Inl e) \<Rightarrow> Some (Inl e)
      | Some (Inr h1) \<Rightarrow> Some (Inr (s\<lparr>heap := release (heads s) h1, heads := []\<rparr>)))"

text \<open>A sequence of \<^verbatim>\<open>upsert\<close> calls, and an index built and then filled by one.\<close>

fun upserts :: "('k::linorder, 'v) state \<Rightarrow> ('k \<times> 'v) list \<Rightarrow> (fault + ('k, 'v) state) option" where
  "upserts s [] = Some (Inr s)"
| "upserts s ((k, v) # ops) =
     (case upsert s k v of
        None \<Rightarrow> None
      | Some (Inl e) \<Rightarrow> Some (Inl e)
      | Some (Inr s') \<Rightarrow> upserts s' ops)"

definition index_after :: "nat \<Rightarrow> int stream \<Rightarrow> ('k::linorder \<times> 'v) list
    \<Rightarrow> (fault + ('k, 'v) state) option" where
  "index_after height rs ops =
     (case SkipList height rs of
        Inl e \<Rightarrow> Some (Inl e)
      | Inr s \<Rightarrow> upserts s ops)"

section \<open>The single-writer index (\<^verbatim>\<open>SkipListAtomicSingleWriter\<close>), run by one thread\<close>

text \<open>
  \<^verbatim>\<open>skiplist_atomic_sw.hpp\<close> keeps \<^verbatim>\<open>next\<close> and \<^verbatim>\<open>v\<close> in atomic cells. Run by a
  single thread, an atomic load or store of any memory order reads or writes the cell, so
  the cells are the fields \<open>nxt\<close> and \<open>val\<close> of the same node record; \<open>val = None\<close>
  is a value cell that was never stored (the two-argument constructor of a sentinel leaves
  \<^verbatim>\<open>v\<close> alone), and loading it is a fault. The functions are translated from that
  file one by one and carry the suffix \<open>_sw\<close>.
\<close>

partial_function (option) findInLevel_sw ::
  "('k::linorder, 'v) heap \<Rightarrow> addr \<Rightarrow> 'k \<Rightarrow> (fault + addr) option" where
  "findInLevel_sw h current k =
     (case deref h current of
        None \<Rightarrow> Some (Inl InvalidPointer)
      | Some c \<Rightarrow>
          (case nxt c of
             None \<Rightarrow> Some (Inr current)
           | Some n \<Rightarrow>
               (case deref h n of
                  None \<Rightarrow> Some (Inl InvalidPointer)
                | Some nn \<Rightarrow>
                    if opt_gt (key nn) k then Some (Inr current)
                    else findInLevel_sw h n k)))"

definition chainNode_sw :: "addr \<Rightarrow> addr \<Rightarrow> ('k, 'v) heap \<Rightarrow> fault + addr \<times> ('k, 'v) heap" where
  "chainNode_sw previous newNode h =
     (case deref h previous of
        None \<Rightarrow> Inl InvalidPointer
      | Some p \<Rightarrow>
          (case store newNode (\<lambda>n. n\<lparr>nxt := nxt p\<rparr>) h of
             Inl e \<Rightarrow> Inl e
           | Inr h1 \<Rightarrow>
               (case store previous (\<lambda>n. n\<lparr>nxt := Some newNode\<rparr>) h1 of
                  Inl e \<Rightarrow> Inl e
                | Inr h2 \<Rightarrow> Inr (newNode, h2))))"

definition insert_after_sw :: "addr \<Rightarrow> ('k, 'v) node \<Rightarrow> ('k, 'v) state
    \<Rightarrow> (fault + addr option \<times> ('k, 'v) state) option" where
  "insert_after_sw insertNode n s =
     (case alloc n (heap s) of
        (newNode, h1) \<Rightarrow>
          (case chainNode_sw insertNode newNode h1 of
             Inl e \<Rightarrow> Some (Inl e)
           | Inr (r, h2) \<Rightarrow> Some (Inr (Some r, s\<lparr>heap := h2\<rparr>))))"

partial_function (option) upsertRec_sw ::
  "('k::linorder, 'v) state \<Rightarrow> addr option \<Rightarrow> 'k \<Rightarrow> 'v
     \<Rightarrow> (fault + addr option \<times> ('k, 'v) state) option" where
  "upsertRec_sw s current k v =
     (case current of
        None \<Rightarrow> Some (Inr (None, s))
      | Some cur \<Rightarrow>
          (case findInLevel_sw (heap s) cur k of
             None \<Rightarrow> None
           | Some (Inl e) \<Rightarrow> Some (Inl e)
           | Some (Inr insertNode) \<Rightarrow>
               (case deref (heap s) insertNode of
                  None \<Rightarrow> Some (Inl InvalidPointer)
                | Some n \<Rightarrow>
                    if has_value (key n) \<and> opt_eq (key n) k then
                      Option.bind
                        (upsertRec_sw
                           (s\<lparr>heap := (heap s)[insertNode := Some (n\<lparr>val := Some v\<rparr>)]\<rparr>)
                           (down n) k v)
                        (\<lambda>res. case res of
                           Inl e \<Rightarrow> Some (Inl e)
                         | Inr (r, s') \<Rightarrow> Some (Inr (None, s')))
                    else if \<not> has_value (down n) then
                      insert_after_sw insertNode
                        \<lparr>down = None, nxt = None, key = Some k, val = Some v\<rparr> s
                    else
                      Option.bind (upsertRec_sw s (down n) k v)
                        (\<lambda>res. case res of
                           Inl e \<Rightarrow> Some (Inl e)
                         | Inr (None, s') \<Rightarrow> Some (Inr (None, s'))
                         | Inr (Some childNode, s') \<Rightarrow>
                             (case rand s' of
                                (r, s'') \<Rightarrow>
                                  if r AND 1 \<noteq> 0 then
                                    insert_after_sw insertNode
                                      \<lparr>down = Some childNode, nxt = None,
                                       key = Some k, val = Some v\<rparr> s''
                                  else Some (Inr (None, s'')))))))"

fun SkipListAtomicSingleWriter_loop ::
  "nat \<Rightarrow> addr option \<Rightarrow> ('k, 'v) state \<Rightarrow> fault + ('k, 'v) state" where
  "SkipListAtomicSingleWriter_loop 0 prev s = Inr s"
| "SkipListAtomicSingleWriter_loop (Suc i) prev s =
     (case alloc \<lparr>down = None, nxt = None, key = None, val = None\<rparr> (heap s) of
        (newNode, h1) \<Rightarrow>
          (case (case prev of
                   None \<Rightarrow> Inr h1
                 | Some p \<Rightarrow> store p (\<lambda>n. n\<lparr>down := Some newNode\<rparr>) h1) of
             Inl e \<Rightarrow> Inl e
           | Inr h2 \<Rightarrow>
               SkipListAtomicSingleWriter_loop i (Some newNode)
                 (s\<lparr>heap := h2, heads := heads s @ [newNode]\<rparr>)))"

definition SkipListAtomicSingleWriter :: "nat \<Rightarrow> int stream \<Rightarrow> fault + ('k, 'v) state" where
  "SkipListAtomicSingleWriter height rs = SkipListAtomicSingleWriter_loop height None (fresh rs)"

definition upsert_sw :: "('k::linorder, 'v) state \<Rightarrow> 'k \<Rightarrow> 'v \<Rightarrow> (fault + ('k, 'v) state) option" where
  "upsert_sw s k v =
     (case heads s of
        [] \<Rightarrow> Some (Inl OutOfRange)
      | head0 # rest \<Rightarrow>
          (case upsertRec_sw s (Some head0) k v of
             None \<Rightarrow> None
           | Some (Inl e) \<Rightarrow> Some (Inl e)
           | Some (Inr (r, s')) \<Rightarrow> Some (Inr s')))"

text \<open>\<^verbatim>\<open>v.load\<close> yields a \<^verbatim>\<open>TVal\<close>, which the return turns into an engaged optional.\<close>

definition load_val :: "('k, 'v) node \<Rightarrow> ('k, 'v) state \<Rightarrow> (fault + 'v option \<times> ('k, 'v) state) option" where
  "load_val n s =
     (case val n of
        None \<Rightarrow> Some (Inl Uninitialised)
      | Some x \<Rightarrow> Some (Inr (Some x, s)))"

partial_function (option) find_loop_sw ::
  "('k::linorder, 'v) state \<Rightarrow> addr \<Rightarrow> 'k \<Rightarrow> (fault + 'v option \<times> ('k, 'v) state) option" where
  "find_loop_sw s matchingNode k =
     (case deref (heap s) matchingNode of
        None \<Rightarrow> Some (Inl InvalidPointer)
      | Some n \<Rightarrow>
          (case down n of
             Some d \<Rightarrow>
               if has_value (key n) \<and> opt_eq (key n) k then load_val n s
               else
                 (case findInLevel_sw (heap s) d k of
                    None \<Rightarrow> None
                  | Some (Inl e) \<Rightarrow> Some (Inl e)
                  | Some (Inr m) \<Rightarrow> find_loop_sw s m k)
           | None \<Rightarrow>
               if \<not> has_value (key n) \<or> opt_ne (key n) k then Some (Inr (None, s))
               else load_val n s))"

definition find_sw :: "('k::linorder, 'v) state \<Rightarrow> 'k \<Rightarrow> (fault + 'v option \<times> ('k, 'v) state) option" where
  "find_sw s k =
     (case heads s of
        [] \<Rightarrow> Some (Inl OutOfRange)
      | head0 # rest \<Rightarrow>
          (case findInLevel_sw (heap s) head0 k of
             None \<Rightarrow> None
           | Some (Inl e) \<Rightarrow> Some (Inl e)
           | Some (Inr m) \<Rightarrow> find_loop_sw s m k))"

text \<open>
  \<^verbatim>\<open>clear\<close> of this variant deletes the sentinel too, inside the loop; \<open>next\<close> was
  read before \<open>current\<close> is deleted.
\<close>

partial_function (option) clear_loop_sw ::
  "('k, 'v) heap \<Rightarrow> addr option \<Rightarrow> addr option \<Rightarrow> (fault + ('k, 'v) heap) option" where
  "clear_loop_sw h current next_ptr =
     (case current of
        None \<Rightarrow> Some (Inr h)
      | Some c \<Rightarrow>
          (case deref h c of
             None \<Rightarrow> Some (Inl InvalidPointer)
           | Some n \<Rightarrow>
               (case next_ptr of
                  None \<Rightarrow> Some (Inr (h[c := None]))
                | Some c' \<Rightarrow>
                    (case deref (h[c := None]) c' of
                       None \<Rightarrow> Some (Inl InvalidPointer)
                     | Some n' \<Rightarrow> clear_loop_sw (h[c := None]) (Some c') (nxt n')))))"

fun clear_levels_sw :: "addr list \<Rightarrow> ('k, 'v) heap \<Rightarrow> (fault + ('k, 'v) heap) option" where
  "clear_levels_sw [] h = Some (Inr h)"
| "clear_levels_sw (hd_i # rest) h =
     (case deref h hd_i of
        None \<Rightarrow> Some (Inl InvalidPointer)
      | Some n \<Rightarrow>
          (case clear_loop_sw h (Some hd_i) (nxt n) of
             None \<Rightarrow> None
           | Some (Inl e) \<Rightarrow> Some (Inl e)
           | Some (Inr h1) \<Rightarrow> clear_levels_sw rest h1))"

definition clear_sw :: "('k, 'v) state \<Rightarrow> (fault + ('k, 'v) state) option" where
  "clear_sw s =
     (case clear_levels_sw (heads s) (heap s) of
        None \<Rightarrow> None
      | Some (Inl e) \<Rightarrow> Some (Inl e)
      | Some (Inr h1) \<Rightarrow> Some (Inr (s\<lparr>heap := h1, heads := []\<rparr>)))"

fun upserts_sw :: "('k::linorder, 'v) state \<Rightarrow> ('k \<times> 'v) list \<Rightarrow> (fault + ('k, 'v) state) option" where
  "upserts_sw s [] = Some (Inr s)"
| "upserts_sw s ((k, v) # ops) =
     (case upsert_sw s k v of
        None \<Rightarrow> None
      | Some (Inl e) \<Rightarrow> Some (Inl e)
      | Some (Inr s') \<Rightarrow> upserts_sw s' ops)"

definition index_after_sw :: "nat \<Rightarrow> int stream \<Rightarrow> ('k::linorder \<times> 'v) list
    \<Rightarrow> (fault + ('k, 'v) state) option" where
  "index_after_sw height rs ops =
     (case SkipListAtomicSingleWriter height rs of
        Inl e \<Rightarrow> Some (Inl e)
      | Inr s \<Rightarrow> upserts_sw s ops)"

section \<open>What the statements speak about\<close>

text \<open>
  The fields of the node at an address; \<open>None\<close> too when the address holds no node.
  \<open>nxt_of\<close> keeps the two apart: \<open>Some None\<close> is a node whose next pointer is null.
\<close>

definition nxt_of :: "('k, 'v) heap \<Rightarrow> addr \<Rightarrow> addr option option" where
  "nxt_of h a = map_option nxt (deref h a)"

definition key_of :: "('k, 'v) heap \<Rightarrow> addr \<Rightarrow> 'k option" where
  "key_of h a = (case deref h a of None \<Rightarrow> None | Some n \<Rightarrow> key n)"

definition val_of :: "('k, 'v) heap \<Rightarrow> addr \<Rightarrow> 'v option" where
  "val_of h a = (case deref h a of None \<Rightarrow> None | Some n \<Rightarrow> val n)"

definition down_of :: "('k, 'v) heap \<Rightarrow> addr \<Rightarrow> addr option" where
  "down_of h a = (case deref h a of None \<Rightarrow> None | Some n \<Rightarrow> down n)"

text \<open>
  The nodes of a level are those reached from its sentinel \<^verbatim>\<open>heads[L]\<close> by following
  \<^verbatim>\<open>next\<close>. Level 0 is the top level.
\<close>

inductive reach :: "('k, 'v) heap \<Rightarrow> addr \<Rightarrow> addr \<Rightarrow> bool" for h :: "('k, 'v) heap" where
  reach_start: "reach h a a"
| reach_step: "reach h a b \<Longrightarrow> deref h b = Some n \<Longrightarrow> nxt n = Some c \<Longrightarrow> reach h a c"

definition on_level :: "('k, 'v) state \<Rightarrow> nat \<Rightarrow> addr \<Rightarrow> bool" where
  "on_level s L a \<longleftrightarrow> L < length (heads s) \<and> reach (heap s) (heads s ! L) a"

text \<open>The heap in which every node of key \<open>k\<close> holds the value \<open>v\<close> and nothing else differs.\<close>

definition set_vals :: "'k \<Rightarrow> 'v \<Rightarrow> ('k, 'v) heap \<Rightarrow> ('k, 'v) heap" where
  "set_vals k v h = map (map_option (\<lambda>n. if key n = Some k then n\<lparr>val := Some v\<rparr> else n)) h"

text \<open>
  The test \<^verbatim>\<open>rand() & 1\<close> on one outcome, and the number of outcomes that pass it in a
  row at the start of the first \<open>m\<close> outcomes of a stream.
\<close>

definition promote :: "int \<Rightarrow> bool" where
  "promote r \<longleftrightarrow> r AND 1 \<noteq> 0"

definition promotions :: "nat \<Rightarrow> int stream \<Rightarrow> nat" where
  "promotions m cs = length (takeWhile promote (stake m cs))"

text \<open>An index to try the statements on: height 3, keys 1 and 2, outcomes 1, 0, 0 repeated.\<close>

definition example_index :: "(int, int) state" where
  "example_index =
     \<lparr>heap =
        [Some \<lparr>down = Some 1, nxt = None, key = None, val = None\<rparr>,
         Some \<lparr>down = Some 2, nxt = Some 4, key = None, val = None\<rparr>,
         Some \<lparr>down = None, nxt = Some 3, key = None, val = None\<rparr>,
         Some \<lparr>down = None, nxt = Some 5, key = Some 1, val = Some 10\<rparr>,
         Some \<lparr>down = Some 3, nxt = None, key = Some 1, val = Some 10\<rparr>,
         Some \<lparr>down = None, nxt = None, key = Some 2, val = Some 20\<rparr>],
      heads = [0, 1, 2], rnd = cycle [1, 0, 0]\<rparr>"


section \<open>The shape of an index\<close>

text \<open>
  The invariant is stated over the list of the levels, top level first, each level the list
  of its addresses from the sentinel on. \<open>chain\<close>: the next pointers of a level link
  exactly its addresses, in order, and the last one is null.
\<close>

fun chain :: "('k, 'v) heap \<Rightarrow> addr list \<Rightarrow> bool" where
  "chain h [] = False"
| "chain h [a] = (nxt_of h a = Some None)"
| "chain h (a # b # bs) = (nxt_of h a = Some (Some b) \<and> chain h (b # bs))"

text \<open>
  A level starts with a node without key, and its keys increase strictly; \<open>None\<close> is
  below every \<open>Some k\<close> in the order on \<open>option\<close>, as a sentinel is below every key.
\<close>

definition level_ok :: "('k::linorder, 'v) heap \<Rightarrow> addr list \<Rightarrow> bool" where
  "level_ok h lv \<longleftrightarrow>
     chain h lv \<and> key_of h (hd lv) = None \<and> sorted_wrt (<) (map (key_of h) lv)"

text \<open>
  Every node of a level points down to a node of the next level with the same key; on the
  bottom level every down pointer is null. A tower is a non-empty stack of such levels.
\<close>

definition links :: "('k, 'v) heap \<Rightarrow> addr list \<Rightarrow> addr list \<Rightarrow> bool" where
  "links h lv lw \<longleftrightarrow>
     (\<forall>a\<in>set lv. \<exists>d\<in>set lw. down_of h a = Some d \<and> key_of h d = key_of h a)"

definition bottom :: "('k, 'v) heap \<Rightarrow> addr list \<Rightarrow> bool" where
  "bottom h lv \<longleftrightarrow> (\<forall>a\<in>set lv. down_of h a = None)"

fun tower :: "('k::linorder, 'v) heap \<Rightarrow> addr list list \<Rightarrow> bool" where
  "tower h [] = False"
| "tower h [lv] = (level_ok h lv \<and> bottom h lv)"
| "tower h (lv # lw # rest) = (level_ok h lv \<and> links h lv lw \<and> tower h (lw # rest))"

text \<open>
  An index with levels \<open>lvs\<close> and contents \<open>M\<close>: a tower whose levels share no node and
  hold every allocated address, with \<^verbatim>\<open>heads\<close> the sentinels; every node with a key
  holds the value \<open>M\<close> gives the key, and every key of \<open>M\<close> is on the bottom level.
\<close>

definition wf_index :: "('k::linorder, 'v) state \<Rightarrow> addr list list \<Rightarrow> ('k \<rightharpoonup> 'v) \<Rightarrow> bool" where
  "wf_index s lvs M \<longleftrightarrow>
     tower (heap s) lvs \<and> distinct (concat lvs) \<and> heads s = map hd lvs \<and>
     set (concat lvs) = {..<length (heap s)} \<and>
     (\<forall>a\<in>set (concat lvs). \<forall>k. key_of (heap s) a = Some k \<longrightarrow>
        val_of (heap s) a = M k \<and> M k \<noteq> None) \<and>
     (\<forall>k. M k \<noteq> None \<longrightarrow> (\<exists>a\<in>set (last lvs). key_of (heap s) a = Some k))"

text \<open>Every node that has a key has a value.\<close>

definition valued :: "('k, 'v) heap \<Rightarrow> bool" where
  "valued h \<longleftrightarrow> (\<forall>a n. deref h a = Some n \<longrightarrow> key n \<noteq> None \<longrightarrow> val n \<noteq> None)"

text \<open>The heap the constructor builds for height \<open>i\<close>.\<close>

definition sentinel_heap :: "nat \<Rightarrow> ('k, 'v) heap" where
  "sentinel_heap i =
     map (\<lambda>j. Some \<lparr>down = (if Suc j < i then Some (Suc j) else None), nxt = None,
                      key = None, val = None\<rparr>) [0..<i]"

text \<open>
  The heap after a node \<open>n\<close> is allocated and spliced in behind the node \<open>pn\<close> at
  address \<open>p\<close>.
\<close>

definition ins_heap :: "('k, 'v) heap \<Rightarrow> addr \<Rightarrow> ('k, 'v) node \<Rightarrow> ('k, 'v) node \<Rightarrow> ('k, 'v) heap" where
  "ins_heap h p pn n =
     (h @ [Some (n\<lparr>nxt := nxt pn\<rparr>)])[p := Some (pn\<lparr>nxt := Some (length h)\<rparr>)]"

text \<open>
  How the levels change when a column of \<open>t\<close> nodes is inserted with the addresses from
  \<open>b\<close> on, bottom node first: each of the lowest \<open>t\<close> levels gains one address, the
  sentinels stay.
\<close>

fun col_rel :: "nat \<Rightarrow> nat \<Rightarrow> addr list list \<Rightarrow> addr list list \<Rightarrow> bool" where
  "col_rel b t [] [] = True"
| "col_rel b t (lv # post) (lv' # post') =
     (hd lv' = hd lv \<and>
      set lv' = set lv \<union> (if length post < t then {b + length post} else {}) \<and>
      col_rel b t post post')"
| "col_rel b t [] (lv' # post') = False"
| "col_rel b t (lv # post) [] = False"

section \<open>Heap and chain lemmas\<close>

lemma deref_append: "deref (h @ [x]) a = (if a = length h then x else deref h a)"
  by (auto simp: deref_def nth_append)

lemma deref_update: "deref (h[a := x]) b = (if b = a \<and> a < length h then x else deref h b)"
  by (auto simp: deref_def)

lemma deref_Some_lt: "deref h a = Some n \<Longrightarrow> a < length h"
  by (auto simp: deref_def split: if_splits)

lemma deref_ge: "length h \<le> a \<Longrightarrow> deref h a = None"
  by (simp add: deref_def)

lemma heap_eqI:
  assumes "length h' = length h" and "\<And>a. deref h' a = deref h a"
  shows "h' = h"
proof (rule nth_equalityI)
  show "length h' = length h" by fact
next
  fix i assume "i < length h'"
  with assms(1) assms(2)[of i] show "h' ! i = h ! i" by (simp add: deref_def)
qed

lemma nxt_of_Some: "nxt_of h a = Some x \<Longrightarrow> \<exists>n. deref h a = Some n \<and> nxt n = x"
  by (auto simp: nxt_of_def)

lemma accessors_cong:
  "deref h' a = deref h a \<Longrightarrow>
     nxt_of h' a = nxt_of h a \<and> key_of h' a = key_of h a \<and>
     val_of h' a = val_of h a \<and> down_of h' a = down_of h a"
  by (simp add: nxt_of_def key_of_def val_of_def down_of_def)

lemma chain_valid: "chain h as \<Longrightarrow> a \<in> set as \<Longrightarrow> \<exists>n. deref h a = Some n"
  by (induction h as rule: chain.induct) (auto dest: nxt_of_Some)

lemma chain_lt: "chain h as \<Longrightarrow> a \<in> set as \<Longrightarrow> a < length h"
  by (blast dest: chain_valid deref_Some_lt)

lemma chain_suffix: "chain h (xs @ ys) \<Longrightarrow> ys \<noteq> [] \<Longrightarrow> chain h ys"
proof (induction xs)
  case Nil
  then show ?case by simp
next
  case (Cons x xs)
  then show ?case by (cases "xs @ ys") auto
qed

lemma chain_cong:
  "(\<And>a. a \<in> set as \<Longrightarrow> nxt_of h' a = nxt_of h a) \<Longrightarrow> chain h' as = chain h as"
  by (induction h as rule: chain.induct) auto

lemma chain_insert:
  assumes "chain h (xs @ p # ys)"
    and "\<And>a. a \<in> set xs \<union> set ys \<Longrightarrow> nxt_of h' a = nxt_of h a"
    and "nxt_of h' p = Some (Some new)"
    and "nxt_of h' new = nxt_of h p"
  shows "chain h' (xs @ p # new # ys)"
  using assms
proof (induction xs)
  case Nil
  have "chain h' (new # ys)"
  proof (cases ys)
    case Nil
    with Nil.prems show ?thesis by simp
  next
    case (Cons y ys')
    with Nil.prems have "chain h (y # ys')" "nxt_of h p = Some (Some y)" by auto
    moreover have "chain h' (y # ys') = chain h (y # ys')"
      by (rule chain_cong) (use Nil.prems Cons in auto)
    ultimately show ?thesis using Nil.prems Cons by simp
  qed
  with Nil.prems show ?case by simp
next
  case (Cons x xs)
  from Cons.prems(1) have c: "chain h (xs @ p # ys)" and
    n: "nxt_of h x = Some (Some (hd (xs @ p # ys)))"
    by (cases "xs @ p # ys"; auto)+
  have "chain h' (xs @ p # new # ys)"
    by (rule Cons.IH[OF c]) (use Cons.prems in auto)
  moreover have "nxt_of h' x = nxt_of h x" using Cons.prems(2) by simp
  moreover have "hd (xs @ p # new # ys) = hd (xs @ p # ys)" by (cases xs) auto
  ultimately show ?case using n by (cases "xs @ p # new # ys") auto
qed

lemma opt_gt_iff: "opt_gt ko k \<longleftrightarrow> Some k < ko"
  by (cases ko) (auto simp: opt_gt_def)

lemma findInLevel_chain:
  "chain h (c # as) \<Longrightarrow> sorted_wrt (<) (map (key_of h) (c # as)) \<Longrightarrow>
   \<exists>us p ys. c # as = us @ p # ys \<and> findInLevel h c k = Some (Inr p) \<and>
     (\<forall>a\<in>set ys. Some k < key_of h a) \<and> (\<forall>a\<in>set (tl (us @ [p])). key_of h a \<le> Some k)"
proof (induction as arbitrary: c)
  case Nil
  then obtain n where "deref h c = Some n" "nxt n = None"
    by (auto dest: nxt_of_Some)
  then have "findInLevel h c k = Some (Inr c)"
    by (subst findInLevel.simps) simp
  then show ?case by (intro exI[of _ "[]"] exI[of _ c]) simp
next
  case (Cons b bs)
  from Cons.prems obtain n where n: "deref h c = Some n" "nxt n = Some b"
    by (auto dest: nxt_of_Some)
  from Cons.prems obtain nn where nn: "deref h b = Some nn"
    using chain_valid[of h "c # b # bs" b] by auto
  have kb: "key_of h b = key nn" using nn by (simp add: key_of_def)
  show ?case
  proof (cases "Some k < key_of h b")
    case True
    then have "findInLevel h c k = Some (Inr c)"
      using n nn kb by (subst findInLevel.simps) (simp add: opt_gt_iff)
    moreover have "\<forall>a\<in>set (b # bs). Some k < key_of h a"
      using Cons.prems(2) True by auto
    ultimately show ?thesis
      by (intro exI[of _ "[]"] exI[of _ c] exI[of _ "b # bs"]) simp
  next
    case False
    then have step: "findInLevel h c k = findInLevel h b k"
      using n nn kb by (subst findInLevel.simps) (simp add: opt_gt_iff)
    from Cons.prems have "chain h (b # bs)" "sorted_wrt (<) (map (key_of h) (b # bs))"
      by auto
    from Cons.IH[OF this] obtain us p ys where
      r: "b # bs = us @ p # ys" "findInLevel h b k = Some (Inr p)"
        "\<forall>a\<in>set ys. Some k < key_of h a" "\<forall>a\<in>set (tl (us @ [p])). key_of h a \<le> Some k"
      by blast
    have "hd (us @ [p]) = b" using r(1) by (cases us) auto
    then have "set (us @ [p]) = insert b (set (tl (us @ [p])))"
      by (cases "us @ [p]") auto
    with r(4) False have "\<forall>a\<in>set (us @ [p]). key_of h a \<le> Some k" by auto
    then have "\<forall>a\<in>set (tl ((c # us) @ [p])). key_of h a \<le> Some k" by simp
    with r step show ?thesis
      by (intro exI[of _ "c # us"] exI[of _ p] exI[of _ ys]) simp
  qed
qed

lemma findInLevel_level:
  assumes "level_ok h lv" "c \<in> set lv" "key_of h c \<le> Some k"
  shows "\<exists>xs p ys. lv = xs @ p # ys \<and> findInLevel h c k = Some (Inr p) \<and>
     key_of h p \<le> Some k \<and> (\<forall>a\<in>set ys. Some k < key_of h a)"
proof -
  from assms(2) obtain pre as where lv: "lv = pre @ c # as" by (meson split_list)
  from assms(1) have "chain h (c # as)" "sorted_wrt (<) (map (key_of h) (c # as))"
    unfolding level_ok_def lv by (auto dest: chain_suffix simp: sorted_wrt_append)
  from findInLevel_chain[OF this, of k] obtain us p ys where
    r: "c # as = us @ p # ys" "findInLevel h c k = Some (Inr p)"
      "\<forall>a\<in>set ys. Some k < key_of h a" "\<forall>a\<in>set (tl (us @ [p])). key_of h a \<le> Some k"
    by blast
  have "key_of h p \<le> Some k"
  proof (cases us)
    case Nil
    with r(1) assms(3) show ?thesis by simp
  next
    case (Cons u us')
    with r(4) show ?thesis by simp
  qed
  with r lv show ?thesis
    by (intro exI[of _ "pre @ us"] exI[of _ p] exI[of _ ys]) simp
qed

lemma level_key_unique:
  assumes "level_ok h lv" "lv = xs @ p # ys" "key_of h p \<le> Some k"
    "\<forall>a\<in>set ys. Some k < key_of h a" "a \<in> set lv" "key_of h a = Some k"
  shows "a = p"
proof -
  from assms(1,2) have "\<forall>x\<in>set xs. key_of h x < key_of h p"
    by (auto simp: level_ok_def sorted_wrt_append)
  with assms show ?thesis by force
qed

lemma tower_level_ok: "tower h (lv # post) \<Longrightarrow> level_ok h lv"
  by (cases post) auto

lemma tower_valid: "tower h lvs \<Longrightarrow> a \<in> set (concat lvs) \<Longrightarrow> \<exists>n. deref h a = Some n"
  by (induction h lvs rule: tower.induct) (auto simp: level_ok_def dest: chain_valid)

lemma tower_lt: "tower h lvs \<Longrightarrow> a \<in> set (concat lvs) \<Longrightarrow> a < length h"
  by (blast dest: tower_valid deref_Some_lt)

lemma level_ok_cong:
  assumes "\<And>a. a \<in> set lv \<Longrightarrow> nxt_of h' a = nxt_of h a \<and> key_of h' a = key_of h a"
  shows "level_ok h' lv = level_ok h lv"
proof -
  have "chain h' lv = chain h lv" by (rule chain_cong) (simp add: assms)
  moreover have "map (key_of h') lv = map (key_of h) lv" using assms by simp
  moreover have "lv \<noteq> [] \<Longrightarrow> key_of h' (hd lv) = key_of h (hd lv)" using assms by simp
  moreover have "chain h lv \<Longrightarrow> lv \<noteq> []" by auto
  ultimately show ?thesis unfolding level_ok_def by metis
qed

lemma tower_cong:
  "(\<And>a. a \<in> set (concat lvs) \<Longrightarrow>
      nxt_of h' a = nxt_of h a \<and> key_of h' a = key_of h a \<and> down_of h' a = down_of h a)
   \<Longrightarrow> tower h' lvs = tower h lvs"
proof (induction h lvs rule: tower.induct)
  case (1 h)
  show ?case by simp
next
  case (2 h lv)
  have "level_ok h' lv = level_ok h lv" by (rule level_ok_cong) (simp add: 2)
  moreover have "bottom h' lv = bottom h lv" using 2 by (simp add: bottom_def)
  ultimately show ?case by simp
next
  case (3 h lv lw rest)
  have "level_ok h' lv = level_ok h lv" by (rule level_ok_cong) (simp add: 3)
  moreover have "links h' lv lw = links h lv lw" using 3(2) by (simp add: links_def)
  moreover have "tower h' (lw # rest) = tower h (lw # rest)" by (rule 3(1)) (simp add: 3(2))
  ultimately show ?case by simp
qed

lemma tower_frame:
  "tower h lvs \<Longrightarrow> (\<And>a. a \<in> set (concat lvs) \<Longrightarrow> deref h' a = deref h a) \<Longrightarrow> tower h' lvs"
  using tower_cong[of lvs h' h] accessors_cong[of h' _ h] by blast

lemma links_down:
  "links h lv lw \<Longrightarrow> p \<in> set lv \<Longrightarrow>
     \<exists>d\<in>set lw. down_of h p = Some d \<and> key_of h d = key_of h p"
  by (simp add: links_def)

subsection \<open>One step of \<open>upsertRec\<close>\<close>

lemma upsertRec_null: "upsertRec s None k v = Some (Inr (None, s))"
  by (subst upsertRec.simps) simp

lemma upsertRec_found:
  assumes "findInLevel (heap s) c k = Some (Inr p)" "deref (heap s) p = Some n" "key n = Some k"
  shows "upsertRec s (Some c) k v =
     Option.bind
       (upsertRec (s\<lparr>heap := (heap s)[p := Some (n\<lparr>val := Some v\<rparr>)]\<rparr>) (down n) k v)
       (\<lambda>res. case res of Inl e \<Rightarrow> Some (Inl e) | Inr (r, s') \<Rightarrow> Some (Inr (None, s')))"
  using assms by (subst upsertRec.simps) (simp add: has_value_def opt_eq_def)

lemma upsertRec_leaf:
  assumes "findInLevel (heap s) c k = Some (Inr p)" "deref (heap s) p = Some n"
    "key n \<noteq> Some k" "down n = None"
  shows "upsertRec s (Some c) k v =
     insert_after p \<lparr>down = None, nxt = None, key = Some k, val = Some v\<rparr> s"
  using assms by (subst upsertRec.simps) (auto simp: has_value_def opt_eq_def split: option.splits)

lemma upsertRec_inner:
  assumes "findInLevel (heap s) c k = Some (Inr p)" "deref (heap s) p = Some n"
    "key n \<noteq> Some k" "down n = Some d"
  shows "upsertRec s (Some c) k v =
     Option.bind (upsertRec s (Some d) k v)
       (\<lambda>res. case res of
          Inl e \<Rightarrow> Some (Inl e)
        | Inr (None, s') \<Rightarrow> Some (Inr (None, s'))
        | Inr (Some childNode, s') \<Rightarrow>
            (case rand s' of
               (r, s'') \<Rightarrow>
                 if r AND 1 \<noteq> 0 then
                   insert_after p
                     \<lparr>down = Some childNode, nxt = None, key = Some k, val = Some v\<rparr> s''
                 else Some (Inr (None, s''))))"
  using assms by (subst upsertRec.simps) (auto simp: has_value_def opt_eq_def split: option.splits)

lemma insert_after_eq:
  assumes "deref (heap s) p = Some pn"
  shows "insert_after p n s =
     Some (Inr (Some (length (heap s)),
       s\<lparr>heap := ((heap s) @ [Some (n\<lparr>nxt := nxt pn\<rparr>)])[p := Some (pn\<lparr>nxt := Some (length (heap s))\<rparr>)]\<rparr>))"
proof -
  from assms have lt: "p < length (heap s)" by (rule deref_Some_lt)
  then show ?thesis using assms
    by (simp add: insert_after_def alloc_def chainNode_def store_def deref_append deref_update
        list_update_append)
qed

subsection \<open>Updating a key that is present\<close>

lemma key_of_set_val:
  "deref h p = Some n \<Longrightarrow> key_of (h[p := Some (n\<lparr>val := x\<rparr>)]) a = key_of h a"
  by (auto simp: key_of_def deref_update)

lemma upsertRec_update:
  assumes "tower (heap s) (lv # post)" "distinct (concat (lv # post))" "c \<in> set lv"
    "key_of (heap s) c \<le> Some k" "\<exists>a\<in>set (concat (lv # post)). key_of (heap s) a = Some k"
  shows "\<exists>h'. upsertRec s (Some c) k v = Some (Inr (None, s\<lparr>heap := h'\<rparr>)) \<and>
     length h' = length (heap s) \<and>
     (\<forall>a. deref h' a =
        (if a \<in> set (concat (lv # post)) \<and> key_of (heap s) a = Some k
         then map_option (\<lambda>n. n\<lparr>val := Some v\<rparr>) (deref (heap s) a)
         else deref (heap s) a))"
  using assms
proof (induction post arbitrary: lv c s)
  case Nil
  let ?h = "heap s"
  from Nil.prems(1) have ok: "level_ok ?h lv" and bot: "bottom ?h lv" by auto
  from findInLevel_level[OF ok Nil.prems(3,4)] obtain xs p ys where
    f: "lv = xs @ p # ys" "findInLevel ?h c k = Some (Inr p)" "key_of ?h p \<le> Some k"
      "\<forall>a\<in>set ys. Some k < key_of ?h a" by blast
  from Nil.prems(5) obtain a where a: "a \<in> set lv" "key_of ?h a = Some k" by auto
  have uniq: "\<And>b. b \<in> set lv \<Longrightarrow> key_of ?h b = Some k \<Longrightarrow> b = p"
    by (rule level_key_unique[OF ok f(1,3,4)])
  from uniq[OF a] a have kp: "key_of ?h p = Some k" by simp
  from ok f(1) obtain n where n: "deref ?h p = Some n"
    using chain_valid[of ?h lv p] by (auto simp: level_ok_def)
  have kn: "key n = Some k" using kp n by (simp add: key_of_def)
  have dn: "down n = None" using bot f(1) n by (auto simp: bottom_def down_of_def)
  let ?h1 = "?h[p := Some (n\<lparr>val := Some v\<rparr>)]"
  have "upsertRec s (Some c) k v = Some (Inr (None, s\<lparr>heap := ?h1\<rparr>))"
    by (simp add: upsertRec_found[OF f(2) n kn] dn upsertRec_null)
  moreover have "\<forall>a. deref ?h1 a =
        (if a \<in> set (concat [lv]) \<and> key_of ?h a = Some k
         then map_option (\<lambda>n. n\<lparr>val := Some v\<rparr>) (deref ?h a)
         else deref ?h a)"
    using uniq n kp f(1) deref_Some_lt[OF n] by (auto simp: deref_update)
  ultimately show ?case by (intro exI[of _ ?h1]) simp
next
  case (Cons lw rest)
  let ?h = "heap s"
  from Cons.prems(1) have ok: "level_ok ?h lv" and lk: "links ?h lv lw"
    and tw: "tower ?h (lw # rest)" by auto
  from findInLevel_level[OF ok Cons.prems(3,4)] obtain xs p ys where
    f: "lv = xs @ p # ys" "findInLevel ?h c k = Some (Inr p)" "key_of ?h p \<le> Some k"
      "\<forall>a\<in>set ys. Some k < key_of ?h a" by blast
  have uniq: "\<And>b. b \<in> set lv \<Longrightarrow> key_of ?h b = Some k \<Longrightarrow> b = p"
    by (rule level_key_unique[OF ok f(1,3,4)])
  have pin: "p \<in> set lv" using f(1) by simp
  from ok pin obtain n where n: "deref ?h p = Some n"
    using chain_valid[of ?h lv p] by (auto simp: level_ok_def)
  from links_down[OF lk pin] obtain d where
    d: "d \<in> set lw" "down_of ?h p = Some d" "key_of ?h d = key_of ?h p" by blast
  have dn: "down n = Some d" using d(2) n by (simp add: down_of_def)
  have dist: "distinct (concat (lw # rest))" using Cons.prems(2) by simp
  have disj: "\<And>a. a \<in> set lv \<Longrightarrow> a \<notin> set (concat (lw # rest))"
    using Cons.prems(2) by auto
  show ?case
  proof (cases "key_of ?h p = Some k")
    case True
    then have kn: "key n = Some k" using n by (simp add: key_of_def)
    let ?h1 = "?h[p := Some (n\<lparr>val := Some v\<rparr>)]"
    let ?s1 = "s\<lparr>heap := ?h1\<rparr>"
    have fr: "\<And>a. a \<noteq> p \<Longrightarrow> deref ?h1 a = deref ?h a" by (simp add: deref_update)
    have k1: "\<And>a. key_of ?h1 a = key_of ?h a" by (rule key_of_set_val[OF n])
    have "\<And>a. a \<in> set (concat (lw # rest)) \<Longrightarrow> a \<noteq> p"
      using disj[OF pin] by blast
    then have "tower ?h1 (lw # rest)"
      by (intro tower_frame[OF tw] fr)
    then have tw1: "tower (heap ?s1) (lw # rest)" by simp
    have "\<exists>h'. upsertRec ?s1 (Some d) k v = Some (Inr (None, ?s1\<lparr>heap := h'\<rparr>)) \<and>
       length h' = length (heap ?s1) \<and>
       (\<forall>a. deref h' a =
        (if a \<in> set (concat (lw # rest)) \<and> key_of (heap ?s1) a = Some k
         then map_option (\<lambda>n. n\<lparr>val := Some v\<rparr>) (deref (heap ?s1) a)
         else deref (heap ?s1) a))"
      by (rule Cons.IH[OF tw1 dist d(1)]) (use d True k1 in auto)
    then obtain h2 where h2: "upsertRec ?s1 (Some d) k v = Some (Inr (None, s\<lparr>heap := h2\<rparr>))"
      "length h2 = length ?h"
      "\<And>a. deref h2 a =
        (if a \<in> set (concat (lw # rest)) \<and> key_of ?h a = Some k
         then map_option (\<lambda>n. n\<lparr>val := Some v\<rparr>) (deref ?h1 a)
         else deref ?h1 a)"
      by (auto simp: k1)
    have "upsertRec s (Some c) k v = Some (Inr (None, s\<lparr>heap := h2\<rparr>))"
      by (simp add: upsertRec_found[OF f(2) n kn] dn h2(1))
    moreover have "\<forall>a. deref h2 a =
        (if a \<in> set (concat (lv # lw # rest)) \<and> key_of ?h a = Some k
         then map_option (\<lambda>n. n\<lparr>val := Some v\<rparr>) (deref ?h a)
         else deref ?h a)"
    proof
      fix a
      show "deref h2 a =
        (if a \<in> set (concat (lv # lw # rest)) \<and> key_of ?h a = Some k
         then map_option (\<lambda>n. n\<lparr>val := Some v\<rparr>) (deref ?h a)
         else deref ?h a)"
      proof (cases "a = p")
        case True
        with disj[OF pin] h2(3)[of p] n deref_Some_lt[OF n] \<open>key_of ?h p = Some k\<close> pin
        show ?thesis by (simp add: deref_update)
      next
        case False
        with h2(3)[of a] fr[of a] uniq[of a] disj[of a] show ?thesis by auto
      qed
    qed
    ultimately show ?thesis using h2(2) by (intro exI[of _ h2]) simp
  next
    case False
    then have kn: "key n \<noteq> Some k" using n by (simp add: key_of_def)
    from False uniq have nolv: "\<And>b. b \<in> set lv \<Longrightarrow> key_of ?h b \<noteq> Some k" by blast
    with Cons.prems(5) have ex: "\<exists>a\<in>set (concat (lw # rest)). key_of ?h a = Some k" by auto
    have "key_of ?h d \<le> Some k" using d(3) f(3) by simp
    from Cons.IH[OF tw dist d(1) this ex] obtain h2 where
      h2: "upsertRec s (Some d) k v = Some (Inr (None, s\<lparr>heap := h2\<rparr>))"
      "length h2 = length ?h"
      "\<And>a. deref h2 a =
        (if a \<in> set (concat (lw # rest)) \<and> key_of ?h a = Some k
         then map_option (\<lambda>n. n\<lparr>val := Some v\<rparr>) (deref ?h a)
         else deref ?h a)"
      by auto
    have "upsertRec s (Some c) k v = Some (Inr (None, s\<lparr>heap := h2\<rparr>))"
      by (simp add: upsertRec_inner[OF f(2) n kn dn] h2(1))
    moreover have "\<forall>a. deref h2 a =
        (if a \<in> set (concat (lv # lw # rest)) \<and> key_of ?h a = Some k
         then map_option (\<lambda>n. n\<lparr>val := Some v\<rparr>) (deref ?h a)
         else deref ?h a)"
      using h2(3) nolv disj by auto
    ultimately show ?thesis using h2(2) by (intro exI[of _ h2]) simp
  qed
qed

subsection \<open>Inserting a key that is absent\<close>

lemma promotions_le: "promotions m cs \<le> m"
  unfolding promotions_def by (metis length_stake length_takeWhile_le)

lemma promotions_Suc:
  "promotions (Suc m) cs =
     (if promotions m cs = m \<and> promote (cs !! m) then Suc m else promotions m cs)"
proof -
  have "\<And>xs. length (takeWhile promote xs) = length xs \<longleftrightarrow> (\<forall>x\<in>set xs. promote x)"
  proof -
    fix xs :: "int list"
    show "length (takeWhile promote xs) = length xs \<longleftrightarrow> (\<forall>x\<in>set xs. promote x)"
      by (induction xs) auto
  qed
  from this[of "stake m cs"]
  have all: "promotions m cs = m \<longleftrightarrow> (\<forall>x\<in>set (stake m cs). promote x)"
    by (simp add: promotions_def)
  show ?thesis
  proof (cases "\<forall>x\<in>set (stake m cs). promote x")
    case True
    then have "takeWhile promote (stake m cs @ [cs !! m]) =
        stake m cs @ takeWhile promote [cs !! m]"
      by (simp add: takeWhile_append2)
    with True all show ?thesis by (simp add: promotions_def stake_Suc del: stake.simps)
  next
    case False
    then have "takeWhile promote (stake m cs @ [cs !! m]) = takeWhile promote (stake m cs)"
      by (auto simp: takeWhile_append1)
    with False all show ?thesis by (auto simp: promotions_def stake_Suc simp del: stake.simps)
  qed
qed

lemma col_rel_length: "col_rel b t lvs lvs' \<Longrightarrow> length lvs' = length lvs"
  by (induction b t lvs lvs' rule: col_rel.induct) auto

lemma col_rel_heads: "col_rel b t lvs lvs' \<Longrightarrow> map hd lvs' = map hd lvs"
  by (induction b t lvs lvs' rule: col_rel.induct) auto

lemma col_rel_change:
  "col_rel b t lvs lvs' \<Longrightarrow> t = t' \<or> (length lvs \<le> t \<and> length lvs \<le> t') \<Longrightarrow>
     col_rel b t' lvs lvs'"
  by (induction b t lvs lvs' rule: col_rel.induct) auto

lemma col_rel_concat:
  "col_rel b t lvs lvs' \<Longrightarrow>
     set (concat lvs') = set (concat lvs) \<union> {b ..< b + min t (length lvs)}"
proof (induction b t lvs lvs' rule: col_rel.induct)
  case (2 b t lv post lv' post')
  then have "set (concat post') = set (concat post) \<union> {b ..< b + min t (length post)}"
    by simp
  moreover have "(if length post < t then {b + length post} else {}) \<union>
      {b ..< b + min t (length post)} = {b ..< b + min t (Suc (length post))}"
    by auto
  ultimately show ?case using 2(2) by auto
qed auto

lemma col_rel_bottom:
  "col_rel b t lvs lvs' \<Longrightarrow> lvs \<noteq> [] \<Longrightarrow> 0 < t \<Longrightarrow> b \<in> set (last lvs')"
proof (induction b t lvs lvs' rule: col_rel.induct)
  case (2 b t lv post lv' post')
  show ?case
  proof (cases post)
    case Nil
    with 2(2) have "post' = []" by (cases post') auto
    with 2 Nil show ?thesis by simp
  next
    case (Cons lw rest)
    with 2(2) have "post' \<noteq> []" by (cases post') auto
    with 2 Cons show ?thesis by simp
  qed
qed auto

lemma col_rel_refl_upd: "col_rel b 0 lvs lvs"
  by (induction lvs) auto

lemma length_ins_heap: "length (ins_heap h p pn n) = Suc (length h)"
  by (simp add: ins_heap_def)

lemma deref_ins_heap:
  "deref h p = Some pn \<Longrightarrow>
   deref (ins_heap h p pn n) a =
     (if a = p then Some (pn\<lparr>nxt := Some (length h)\<rparr>)
      else if a = length h then Some (n\<lparr>nxt := nxt pn\<rparr>)
      else deref h a)"
  by (auto simp: ins_heap_def deref_update deref_append dest: deref_Some_lt)

lemma ins_heap_old:
  assumes "deref h p = Some pn" "a < length h"
  shows "key_of (ins_heap h p pn n) a = key_of h a"
    and "val_of (ins_heap h p pn n) a = val_of h a"
    and "down_of (ins_heap h p pn n) a = down_of h a"
  using assms by (auto simp: key_of_def val_of_def down_of_def deref_ins_heap)

lemma ins_heap_new:
  assumes "deref h p = Some pn"
  shows "key_of (ins_heap h p pn n) (length h) = key n"
    and "val_of (ins_heap h p pn n) (length h) = val n"
    and "down_of (ins_heap h p pn n) (length h) = down n"
    and "nxt_of (ins_heap h p pn n) (length h) = Some (nxt pn)"
    and "nxt_of (ins_heap h p pn n) p = Some (Some (length h))"
  using deref_Some_lt[OF assms]
  by (auto simp: key_of_def val_of_def down_of_def nxt_of_def deref_ins_heap[OF assms])

lemma insert_after_ins_heap:
  "deref (heap s) p = Some pn \<Longrightarrow>
     insert_after p n s = Some (Inr (Some (length (heap s)), s\<lparr>heap := ins_heap (heap s) p pn n\<rparr>))"
  by (simp add: insert_after_eq ins_heap_def)

lemma level_insert:
  assumes ok: "level_ok h (xs @ p # ys)" and dist: "distinct (xs @ p # ys)"
    and lt: "key_of h p < Some k" and gt: "\<forall>a\<in>set ys. Some k < key_of h a"
    and pn: "deref h p = Some pn" and kn: "key n = Some k"
  shows "level_ok (ins_heap h p pn n) (xs @ p # length h # ys)"
proof -
  let ?h' = "ins_heap h p pn n"
  let ?new = "length h"
  from ok have ch: "chain h (xs @ p # ys)" by (simp add: level_ok_def)
  have old: "\<And>a. a \<in> set (xs @ p # ys) \<Longrightarrow> a < length h"
    using chain_lt[OF ch] by blast
  have c': "chain ?h' (xs @ p # ?new # ys)"
  proof (rule chain_insert[OF ch])
    fix a assume a: "a \<in> set xs \<union> set ys"
    with dist have "a \<noteq> p" by auto
    moreover from a old[of a] have "a \<noteq> length h" by auto
    ultimately have "deref ?h' a = deref h a" by (simp add: deref_ins_heap[OF pn])
    then show "nxt_of ?h' a = nxt_of h a" by (simp add: nxt_of_def)
  next
    show "nxt_of ?h' p = Some (Some ?new)" by (rule ins_heap_new[OF pn])
  next
    have "nxt_of h p = Some (nxt pn)" by (simp add: nxt_of_def pn)
    then show "nxt_of ?h' ?new = nxt_of h p" by (simp add: ins_heap_new(4)[OF pn])
  qed
  have keys: "\<And>a. a \<in> set (xs @ p # ys) \<Longrightarrow> key_of ?h' a = key_of h a"
    using old ins_heap_old(1)[OF pn] by blast
  have knew: "key_of ?h' ?new = Some k" by (simp add: ins_heap_new[OF pn] kn)
  have "hd (xs @ p # ?new # ys) = hd (xs @ p # ys)" by (cases xs) auto
  moreover have "hd (xs @ p # ys) \<in> set (xs @ p # ys)" by (cases xs) auto
  ultimately have h': "key_of ?h' (hd (xs @ p # ?new # ys)) = None"
    using ok keys[of "hd (xs @ p # ys)"] by (simp add: level_ok_def)
  have "sorted_wrt (<) (map (key_of ?h') (xs @ p # ?new # ys))"
  proof -
    from ok have so: "sorted_wrt (<) (map (key_of h) (xs @ p # ys))" by (simp add: level_ok_def)
    have m: "map (key_of ?h') xs = map (key_of h) xs" "map (key_of ?h') ys = map (key_of h) ys"
      "key_of ?h' p = key_of h p"
      using keys by auto
    from so lt have "\<forall>x\<in>set xs. key_of h x < Some k"
      by (auto simp: sorted_wrt_append intro: less_trans)
    with so lt gt show ?thesis
      by (auto simp: sorted_wrt_append m knew)
  qed
  with c' h' show ?thesis by (simp add: level_ok_def)
qed

lemma upsertRec_insert:
  assumes "tower (heap s) (lv # post)" "distinct (concat (lv # post))" "c \<in> set lv"
    "key_of (heap s) c \<le> Some k" "\<forall>a\<in>set (concat (lv # post)). key_of (heap s) a \<noteq> Some k"
  shows "\<exists>h' lvs'.
     upsertRec s (Some c) k v =
       Some (Inr (if promotions (length post) (rnd s) = length post
                  then Some (length (heap s) + length post) else None,
                  s\<lparr>heap := h',
                    rnd := sdrop (min (length post) (Suc (promotions (length post) (rnd s)))) (rnd s)\<rparr>)) \<and>
     length h' = length (heap s) + Suc (promotions (length post) (rnd s)) \<and>
     tower h' lvs' \<and> distinct (concat lvs') \<and>
     col_rel (length (heap s)) (Suc (promotions (length post) (rnd s))) (lv # post) lvs' \<and>
     (\<forall>a<length (heap s). key_of h' a = key_of (heap s) a \<and> val_of h' a = val_of (heap s) a \<and>
         down_of h' a = down_of (heap s) a) \<and>
     (\<forall>a<length (heap s). a \<notin> set (concat (lv # post)) \<longrightarrow> deref h' a = deref (heap s) a) \<and>
     (\<forall>a. length (heap s) \<le> a \<and> a < length h' \<longrightarrow> key_of h' a = Some k \<and> val_of h' a = Some v)"
  using assms
proof (induction post arbitrary: lv c s)
  case Nil
  let ?h = "heap s"
  let ?N = "\<lparr>down = None, nxt = None, key = Some k, val = Some v\<rparr>"
  from Nil.prems(1) have ok: "level_ok ?h lv" and bot: "bottom ?h lv" by auto
  from findInLevel_level[OF ok Nil.prems(3,4)] obtain xs p ys where
    f: "lv = xs @ p # ys" "findInLevel ?h c k = Some (Inr p)" "key_of ?h p \<le> Some k"
      "\<forall>a\<in>set ys. Some k < key_of ?h a" by blast
  have pin: "p \<in> set lv" using f(1) by simp
  with Nil.prems(5) have kp: "key_of ?h p \<noteq> Some k" by simp
  with f(3) have lt: "key_of ?h p < Some k" by simp
  from ok pin obtain n where n: "deref ?h p = Some n"
    using chain_valid[of ?h lv p] by (auto simp: level_ok_def)
  have kn: "key n \<noteq> Some k" using kp n by (simp add: key_of_def)
  have dn: "down n = None" using bot pin n by (auto simp: bottom_def down_of_def)
  let ?h' = "ins_heap ?h p n ?N"
  let ?lv' = "xs @ p # length ?h # ys"
  have old: "\<And>a. a \<in> set lv \<Longrightarrow> a < length ?h"
    using ok chain_lt[of ?h lv] by (auto simp: level_ok_def)
  have res: "upsertRec s (Some c) k v = Some (Inr (Some (length ?h), s\<lparr>heap := ?h'\<rparr>))"
    by (simp add: upsertRec_leaf[OF f(2) n kn dn] insert_after_ins_heap[OF n])
  have dist: "distinct lv" using Nil.prems(2) by simp
  have lok: "level_ok ?h' ?lv'"
    by (rule level_insert[OF _ _ lt f(4) n]) (use ok dist f(1) in auto)
  have "bottom ?h' ?lv'"
    using bot old f(1) by (auto simp: bottom_def ins_heap_old[OF n] ins_heap_new[OF n])
  with lok have tw: "tower ?h' [?lv']" by simp
  have d': "distinct (concat [?lv'])" using dist old[of "length ?h"] f(1) by auto
  have cr: "col_rel (length ?h) (Suc 0) [lv] [?lv']"
    using f(1) by (cases xs) auto
  have o: "\<forall>a<length ?h. key_of ?h' a = key_of ?h a \<and> val_of ?h' a = val_of ?h a \<and>
         down_of ?h' a = down_of ?h a"
    by (simp add: ins_heap_old[OF n])
  have fr: "\<forall>a<length ?h. a \<notin> set (concat [lv]) \<longrightarrow> deref ?h' a = deref ?h a"
    using pin by (auto simp: deref_ins_heap[OF n])
  have nw: "\<forall>a. length ?h \<le> a \<and> a < length ?h' \<longrightarrow> key_of ?h' a = Some k \<and> val_of ?h' a = Some v"
    by (auto simp: length_ins_heap ins_heap_new[OF n] le_less_Suc_eq)
  have p0: "promotions 0 (rnd s) = 0" by (simp add: promotions_def)
  show ?case
    apply (intro exI[of _ ?h'] exI[of _ "[?lv']"] conjI)
    subgoal using res by (simp add: p0)
    subgoal by (simp add: p0 length_ins_heap)
    subgoal by (rule tw)
    subgoal by (rule d')
    subgoal using cr by (simp add: p0)
    subgoal by (rule o)
    subgoal by (rule fr)
    subgoal by (rule nw)
    done
next
  case (Cons lw rest)
  let ?h = "heap s"
  let ?m = "length rest"
  let ?q = "promotions ?m (rnd s)"
  from Cons.prems(1) have ok: "level_ok ?h lv" and lk: "links ?h lv lw"
    and tw: "tower ?h (lw # rest)" by auto
  from findInLevel_level[OF ok Cons.prems(3,4)] obtain xs p ys where
    f: "lv = xs @ p # ys" "findInLevel ?h c k = Some (Inr p)" "key_of ?h p \<le> Some k"
      "\<forall>a\<in>set ys. Some k < key_of ?h a" by blast
  have pin: "p \<in> set lv" using f(1) by simp
  with Cons.prems(5) have kp: "key_of ?h p \<noteq> Some k" by simp
  with f(3) have lt: "key_of ?h p < Some k" by simp
  from ok pin obtain n where n: "deref ?h p = Some n"
    using chain_valid[of ?h lv p] by (auto simp: level_ok_def)
  have kn: "key n \<noteq> Some k" using kp n by (simp add: key_of_def)
  from links_down[OF lk pin] obtain d where
    d: "d \<in> set lw" "down_of ?h p = Some d" "key_of ?h d = key_of ?h p" by blast
  have dn: "down n = Some d" using d(2) n by (simp add: down_of_def)
  have dist: "distinct (concat (lw # rest))" and dlv: "distinct lv"
    using Cons.prems(2) by auto
  have disj: "\<And>a. a \<in> set lv \<Longrightarrow> a \<notin> set (concat (lw # rest))"
    using Cons.prems(2) by auto
  have oldlv: "\<And>a. a \<in> set lv \<Longrightarrow> a < length ?h"
    using ok chain_lt[of ?h lv] by (auto simp: level_ok_def)
  have kd: "key_of ?h d \<le> Some k" using d(3) f(3) by simp
  have nok: "\<forall>a\<in>set (concat (lw # rest)). key_of ?h a \<noteq> Some k" using Cons.prems(5) by simp
  from Cons.IH[OF tw dist d(1) kd nok] obtain h1 lvs1 where
    r1: "upsertRec s (Some d) k v =
       Some (Inr (if ?q = ?m then Some (length ?h + ?m) else None,
                  s\<lparr>heap := h1, rnd := sdrop (min ?m (Suc ?q)) (rnd s)\<rparr>))"
    and len1: "length h1 = length ?h + Suc ?q"
    and tw1: "tower h1 lvs1" and dist1: "distinct (concat lvs1)"
    and cr1: "col_rel (length ?h) (Suc ?q) (lw # rest) lvs1"
    and old1: "\<And>a. a < length ?h \<Longrightarrow> key_of h1 a = key_of ?h a \<and> val_of h1 a = val_of ?h a \<and>
         down_of h1 a = down_of ?h a"
    and fr1: "\<And>a. a < length ?h \<Longrightarrow> a \<notin> set (concat (lw # rest)) \<Longrightarrow> deref h1 a = deref ?h a"
    and new1: "\<And>a. length ?h \<le> a \<Longrightarrow> a < length h1 \<Longrightarrow> key_of h1 a = Some k \<and> val_of h1 a = Some v"
    by blast
  from cr1 obtain lw' rest' where lvs1: "lvs1 = lw' # rest'" by (cases lvs1) auto
  from cr1 have hdlw: "hd lw' = hd lw"
    and setlw: "set lw' = set lw \<union> (if ?m < Suc ?q then {length ?h + ?m} else {})"
    by (auto simp: lvs1)
  have lvsame: "\<And>a. a \<in> set lv \<Longrightarrow> deref h1 a = deref ?h a"
    using fr1 oldlv disj by blast
  have ok1: "level_ok h1 lv"
    using level_ok_cong[of lv h1 ?h] accessors_cong[OF lvsame] ok by blast
  have cc: "set (concat lvs1) = set (concat (lw # rest)) \<union>
      {length ?h ..< length ?h + min (Suc ?q) (length (lw # rest))}"
    by (rule col_rel_concat[OF cr1])
  have disj1: "\<And>a. a \<in> set lv \<Longrightarrow> a \<notin> set (concat lvs1)"
    using disj oldlv unfolding cc by fastforce
  have lt1: "\<And>a. a \<in> set (concat lvs1) \<Longrightarrow> a < length h1"
    using tower_lt[OF tw1] by blast
  have lk1: "links h1 lv lw'"
    unfolding links_def
  proof
    fix a assume a: "a \<in> set lv"
    from links_down[OF lk a] obtain e where
      e: "e \<in> set lw" "down_of ?h a = Some e" "key_of ?h e = key_of ?h a" by blast
    have "e < length ?h" using tower_lt[OF tw, of e] e(1) by simp
    with e old1[of e] old1[OF oldlv[OF a]] setlw
    show "\<exists>d\<in>set lw'. down_of h1 a = Some d \<and> key_of h1 d = key_of h1 a" by auto
  qed
  have pstep: "promotions (Suc ?m) (rnd s) =
      (if ?q = ?m \<and> promote (rnd s !! ?m) then Suc ?m else ?q)"
    by (rule promotions_Suc)
  have qle: "?q \<le> ?m" by (rule promotions_le)
  have stay1: "tower h1 (lv # lvs1)" using ok1 lk1 tw1 by (simp add: lvs1)
  have "set lv \<inter> set (concat lvs1) = {}" using disj1 by blast
  then have stay2: "distinct (concat (lv # lvs1))"
    using dlv dist1 unfolding concat.simps distinct_append by blast
  have stay3: "\<forall>a<length ?h. a \<notin> set (concat (lv # lw # rest)) \<longrightarrow> deref h1 a = deref ?h a"
    using fr1 by simp
  have stay4: "\<forall>a<length ?h. key_of h1 a = key_of ?h a \<and> val_of h1 a = val_of ?h a \<and>
         down_of h1 a = down_of ?h a"
    using old1 by simp
  show ?case
  proof (cases "?q = ?m")
    case False
    with qle have qlt: "?q < ?m" by simp
    have q: "promotions (Suc ?m) (rnd s) = ?q" using pstep False by simp
    have res: "upsertRec s (Some c) k v =
        Some (Inr (None, s\<lparr>heap := h1, rnd := sdrop (Suc ?q) (rnd s)\<rparr>))"
    proof -
      have "min ?m (Suc ?q) = Suc ?q" using qlt by simp
      then show ?thesis by (simp add: upsertRec_inner[OF f(2) n kn dn] r1 False)
    qed
    have cr: "col_rel (length ?h) (Suc ?q) (lv # lw # rest) (lv # lvs1)"
      using cr1 qlt by simp
    have mn: "min (Suc ?m) (Suc ?q) = Suc ?q" using qlt by simp
    show ?thesis
      apply (intro exI[of _ h1] exI[of _ "lv # lvs1"] conjI)
      subgoal using res qlt by (simp add: q mn del: min_Suc_Suc)
      subgoal using len1 by (simp add: q)
      subgoal by (rule stay1)
      subgoal by (rule stay2)
      subgoal using cr by (simp add: q)
      subgoal by (rule stay4)
      subgoal by (rule stay3)
      subgoal using new1 by simp
      done
  next
    case True
    let ?child = "length ?h + ?m"
    let ?s2 = "s\<lparr>heap := h1, rnd := sdrop (Suc ?m) (rnd s)\<rparr>"
    have child: "?child \<in> set lw'" using setlw True by simp
    have kchild: "key_of h1 ?child = Some k" using new1[of ?child] len1 True by simp
    have rnd1: "rand (s\<lparr>heap := h1, rnd := sdrop ?m (rnd s)\<rparr>) = (rnd s !! ?m, ?s2)"
      by (simp add: rand_def sdrop_simps sdrop_stl[symmetric])
    show ?thesis
    proof (cases "promote (rnd s !! ?m)")
      case False
      have q: "promotions (Suc ?m) (rnd s) = ?m" using pstep False True by simp
      have res: "upsertRec s (Some c) k v = Some (Inr (None, ?s2))"
        using False
        by (simp add: upsertRec_inner[OF f(2) n kn dn] r1 True rnd1 promote_def)
      have cr: "col_rel (length ?h) (Suc ?m) (lv # lw # rest) (lv # lvs1)"
        using cr1 True by simp
      show ?thesis
        apply (intro exI[of _ h1] exI[of _ "lv # lvs1"] conjI)
        subgoal using res by (simp add: q)
        subgoal using len1 True by (simp add: q)
        subgoal by (rule stay1)
        subgoal by (rule stay2)
        subgoal using cr by (simp add: q)
        subgoal by (rule stay4)
        subgoal by (rule stay3)
        subgoal using new1 by simp
        done
    next
      case prom: True
      let ?N = "\<lparr>down = Some ?child, nxt = None, key = Some k, val = Some v\<rparr>"
      let ?h' = "ins_heap h1 p n ?N"
      let ?lv' = "xs @ p # length h1 # ys"
      have q: "promotions (Suc ?m) (rnd s) = Suc ?m" using pstep prom True by simp
      have n1: "deref h1 p = Some n" using lvsame[OF pin] n by simp
      have ia: "insert_after p ?N ?s2 = Some (Inr (Some (length h1), ?s2\<lparr>heap := ?h'\<rparr>))"
        using insert_after_ins_heap[of ?s2 p n ?N] n1 by simp
      have res: "upsertRec s (Some c) k v =
          Some (Inr (Some (length h1), s\<lparr>heap := ?h', rnd := sdrop (Suc ?m) (rnd s)\<rparr>))"
        using prom ia
        by (simp add: upsertRec_inner[OF f(2) n kn dn] r1 True rnd1 promote_def)
      have len: "length h1 = length ?h + Suc ?m" using len1 True by simp
      have k1: "\<And>a. a \<in> set lv \<Longrightarrow> key_of h1 a = key_of ?h a"
        using old1 oldlv by blast
      have lok: "level_ok ?h' ?lv'"
      proof (rule level_insert[OF _ _ _ _ n1])
        show "level_ok h1 (xs @ p # ys)" using ok1 f(1) by simp
        show "distinct (xs @ p # ys)" using dlv f(1) by simp
        show "key_of h1 p < Some k" using lt k1[OF pin] by simp
        show "\<forall>a\<in>set ys. Some k < key_of h1 a" using f(4) k1 f(1) by simp
        show "key ?N = Some k" by simp
      qed
      have lt1': "\<And>a. a \<in> set lv \<Longrightarrow> a < length h1" using oldlv len by fastforce
      have lks: "links ?h' ?lv' lw'"
        unfolding links_def
      proof
        fix a assume "a \<in> set ?lv'"
        then consider "a = length h1" | "a \<in> set lv" using f(1) by auto
        then show "\<exists>d\<in>set lw'. down_of ?h' a = Some d \<and> key_of ?h' d = key_of ?h' a"
        proof cases
          case 1
          have "?child < length h1" using len by simp
          then have "key_of ?h' ?child = Some k" using kchild by (simp add: ins_heap_old[OF n1])
          with child 1 show ?thesis by (auto simp: ins_heap_new[OF n1])
        next
          case 2
          from links_down[OF lk1 2] obtain e where
            e: "e \<in> set lw'" "down_of h1 a = Some e" "key_of h1 e = key_of h1 a" by blast
          have "e < length h1" using lt1[of e] e(1) by (simp add: lvs1)
          with e lt1'[OF 2] show ?thesis by (auto simp: ins_heap_old[OF n1])
        qed
      qed
      have "tower ?h' lvs1"
      proof (rule tower_frame[OF tw1])
        fix a assume a: "a \<in> set (concat lvs1)"
        with disj1[OF pin] have "a \<noteq> p" by blast
        moreover from lt1[OF a] have "a \<noteq> length h1" by simp
        ultimately show "deref ?h' a = deref h1 a" by (simp add: deref_ins_heap[OF n1])
      qed
      with lok lks have tw': "tower ?h' (?lv' # lvs1)" by (simp add: lvs1)
      have newfresh: "length h1 \<notin> set lv" "length h1 \<notin> set (concat lvs1)"
        using lt1'[of "length h1"] lt1[of "length h1"] by auto
      have "set lv \<inter> set (concat lvs1) = {}" using disj1 by blast
      then have "set ?lv' \<inter> set (concat lvs1) = {}" using newfresh(2) f(1) by auto
      moreover have "distinct ?lv'" using dlv newfresh(1) f(1) by auto
      ultimately have d': "distinct (concat (?lv' # lvs1))"
        using dist1 unfolding concat.simps distinct_append by blast
      have cr: "col_rel (length ?h) (Suc (Suc ?m)) (lv # lw # rest) (?lv' # lvs1)"
      proof -
        have "col_rel (length ?h) (Suc (Suc ?m)) (lw # rest) lvs1"
          by (rule col_rel_change[OF cr1]) (simp add: True)
        moreover have "hd ?lv' = hd lv" using f(1) by (cases xs) auto
        moreover have "set ?lv' = set lv \<union> {length ?h + Suc ?m}" using f(1) len by auto
        ultimately show ?thesis by simp
      qed
      have o: "\<forall>a<length ?h. key_of ?h' a = key_of ?h a \<and> val_of ?h' a = val_of ?h a \<and>
         down_of ?h' a = down_of ?h a"
        using old1 len by (simp add: ins_heap_old[OF n1])
      have fr: "\<forall>a<length ?h. a \<notin> set (concat (lv # lw # rest)) \<longrightarrow> deref ?h' a = deref ?h a"
        using fr1 pin len by (auto simp: deref_ins_heap[OF n1])
      have nw: "\<forall>a. length ?h \<le> a \<and> a < length ?h' \<longrightarrow>
          key_of ?h' a = Some k \<and> val_of ?h' a = Some v"
      proof (intro allI impI)
        fix a assume a: "length ?h \<le> a \<and> a < length ?h'"
        show "key_of ?h' a = Some k \<and> val_of ?h' a = Some v"
        proof (cases "a = length h1")
          case True
          then show ?thesis by (simp add: ins_heap_new[OF n1])
        next
          case False
          with a have "a < length h1" by (simp add: length_ins_heap)
          with a new1[of a] show ?thesis by (simp add: ins_heap_old[OF n1])
        qed
      qed
      show ?thesis
        apply (intro exI[of _ ?h'] exI[of _ "?lv' # lvs1"] conjI)
        subgoal using res len by (simp add: q)
        subgoal using len by (simp add: q length_ins_heap)
        subgoal by (rule tw')
        subgoal by (rule d')
        subgoal using cr by (simp add: q)
        subgoal by (rule o)
        subgoal by (rule fr)
        subgoal by (rule nw)
        done
    qed
  qed
qed

subsection \<open>The constructor\<close>

lemma length_sentinel_heap: "length (sentinel_heap i) = i"
  by (simp add: sentinel_heap_def)

lemma deref_sentinel_heap:
  "deref (sentinel_heap i :: ('k, 'v) heap) j =
     (if j < i then Some \<lparr>down = (if Suc j < i then Some (Suc j) else None), nxt = None,
                      key = None, val = None\<rparr> else None)"
  by (simp add: sentinel_heap_def deref_def)

lemma sentinel_heap_first:
  "sentinel_heap 0 @ [Some \<lparr>down = None, nxt = None, key = None, val = None\<rparr>] =
     (sentinel_heap (Suc 0) :: ('k, 'v) heap)"
  by (simp add: sentinel_heap_def)

lemma sentinel_heap_step:
  "store j (\<lambda>n. n\<lparr>down := Some (Suc j)\<rparr>)
     (sentinel_heap (Suc j) @ [Some \<lparr>down = None, nxt = None, key = None, val = None\<rparr>]) =
   Inr (sentinel_heap (Suc (Suc j)) :: ('k, 'v) heap)"
proof -
  let ?h1 = "sentinel_heap (Suc j) @ [Some \<lparr>down = None, nxt = None, key = None, val = None\<rparr>]
      :: ('k, 'v) heap"
  have d: "deref ?h1 j = Some \<lparr>down = None, nxt = None, key = None, val = None\<rparr>"
    by (simp add: deref_append deref_sentinel_heap length_sentinel_heap)
  have "?h1[j := Some \<lparr>down = Some (Suc j), nxt = None, key = None, val = None\<rparr>] =
      sentinel_heap (Suc (Suc j))"
  proof (rule heap_eqI)
    show "length (?h1[j := Some \<lparr>down = Some (Suc j), nxt = None, key = None, val = None\<rparr>]) =
        length (sentinel_heap (Suc (Suc j)) :: ('k, 'v) heap)"
      by (simp add: length_sentinel_heap)
  next
    fix a
    show "deref (?h1[j := Some \<lparr>down = Some (Suc j), nxt = None, key = None, val = None\<rparr>]) a =
        deref (sentinel_heap (Suc (Suc j)) :: ('k, 'v) heap) a"
      by (auto simp: deref_update deref_append deref_sentinel_heap length_sentinel_heap)
  qed
  then show ?thesis using d by (simp add: store_def)
qed

lemma SkipList_loop_sentinels:
  "SkipList_loop n (if i = 0 then None else Some (i - 1))
      (\<lparr>heap = sentinel_heap i, heads = [0..<i], rnd = rs\<rparr> :: ('k, 'v) state) =
   Inr \<lparr>heap = sentinel_heap (i + n), heads = [0..<i + n], rnd = rs\<rparr>"
proof (induction n arbitrary: i)
  case 0
  show ?case by simp
next
  case (Suc n)
  have "SkipList_loop (Suc n) (if i = 0 then None else Some (i - 1))
      (\<lparr>heap = sentinel_heap i, heads = [0..<i], rnd = rs\<rparr> :: ('k, 'v) state) =
    SkipList_loop n (Some i) \<lparr>heap = sentinel_heap (Suc i), heads = [0..<Suc i], rnd = rs\<rparr>"
  proof (cases i)
    case 0
    then show ?thesis by (simp add: alloc_def length_sentinel_heap sentinel_heap_first)
  next
    case (Suc j)
    then show ?thesis by (simp add: alloc_def length_sentinel_heap sentinel_heap_step)
  qed
  also have "\<dots> = Inr \<lparr>heap = sentinel_heap (Suc i + n), heads = [0..<Suc i + n], rnd = rs\<rparr>"
    using Suc.IH[of "Suc i"] by simp
  finally show ?case by simp
qed

lemma SkipList_eq:
  "SkipList H rs = Inr \<lparr>heap = sentinel_heap H, heads = [0..<H], rnd = rs\<rparr>"
  using SkipList_loop_sentinels[of H 0 rs] by (simp add: SkipList_def fresh_def sentinel_heap_def)

lemma tower_sentinels:
  "j < H \<Longrightarrow> tower (sentinel_heap H :: ('k::linorder, 'v) heap) (map (\<lambda>i. [i]) [j..<H])"
proof (induction "H - j" arbitrary: j)
  case 0
  then show ?case by simp
next
  case (Suc d)
  let ?h = "sentinel_heap H :: ('k, 'v) heap"
  have ok: "level_ok ?h [j]"
    using Suc.prems by (simp add: level_ok_def nxt_of_def key_of_def deref_sentinel_heap)
  have up: "[j..<H] = j # [Suc j..<H]" using Suc.prems by (simp add: upt_conv_Cons)
  show ?case
  proof (cases "Suc j < H")
    case True
    then have up2: "[Suc j..<H] = Suc j # [Suc (Suc j)..<H]" by (simp add: upt_conv_Cons)
    have "tower ?h (map (\<lambda>i. [i]) [Suc j..<H])" using Suc True by simp
    moreover have "links ?h [j] [Suc j]"
      using True by (simp add: links_def down_of_def key_of_def deref_sentinel_heap)
    ultimately show ?thesis using ok by (simp add: up up2)
  next
    case False
    with Suc.prems have e: "[Suc j..<H] = []" by simp
    have "bottom ?h [j]"
      using False Suc.prems by (simp add: bottom_def down_of_def deref_sentinel_heap)
    with ok show ?thesis unfolding up e by simp
  qed
qed

subsection \<open>The invariant of the index\<close>

lemma concat_singletons: "concat (map (\<lambda>i. [i]) xs) = xs"
  by (induction xs) auto

lemma wf_index_SkipList:
  assumes "0 < H"
  shows "wf_index (\<lparr>heap = sentinel_heap H, heads = [0..<H], rnd = rs\<rparr> :: ('k::linorder, 'v) state)
     (map (\<lambda>i. [i]) [0..<H]) Map.empty"
proof -
  have "tower (sentinel_heap H :: ('k, 'v) heap) (map (\<lambda>i. [i]) [0..<H])"
    using assms by (rule tower_sentinels)
  moreover have "\<And>a. key_of (sentinel_heap H :: ('k, 'v) heap) a = None"
    by (simp add: key_of_def deref_sentinel_heap)
  ultimately show ?thesis
    by (auto simp: wf_index_def concat_singletons length_sentinel_heap comp_def)
qed

lemma tower_nonempty: "tower h lvs \<Longrightarrow> lvs \<noteq> []"
  by auto

lemma tower_last_key:
  "tower h lvs \<Longrightarrow> a \<in> set (concat lvs) \<Longrightarrow> key_of h a = Some k \<Longrightarrow>
     \<exists>b\<in>set (last lvs). key_of h b = Some k"
proof (induction h lvs arbitrary: a rule: tower.induct)
  case (3 h lv lw rest)
  show ?case
  proof (cases "a \<in> set lv")
    case True
    with 3(2) obtain d where "d \<in> set lw" "key_of h d = key_of h a"
      by (auto simp: links_def)
    with 3(1)[of d] 3(2,4) show ?thesis by auto
  next
    case False
    with 3(1)[of a] 3(2,3,4) show ?thesis by auto
  qed
qed auto

lemma last_subset_concat: "lvs \<noteq> [] \<Longrightarrow> set (last lvs) \<subseteq> set (concat lvs)"
  by (induction lvs) auto

lemma col_rel_last: "col_rel b t lvs lvs' \<Longrightarrow> lvs \<noteq> [] \<Longrightarrow> set (last lvs) \<subseteq> set (last lvs')"
proof (induction b t lvs lvs' rule: col_rel.induct)
  case (2 b t lv post lv' post')
  show ?case
  proof (cases post)
    case Nil
    with 2(2) have "post' = []" by (cases post') auto
    with 2 Nil show ?thesis by auto
  next
    case (Cons lw rest)
    with 2(2) have "post' \<noteq> []" by (cases post') auto
    with 2 Cons show ?thesis by simp
  qed
qed auto

lemma deref_set_vals:
  "deref (set_vals k v h) a =
     (if key_of h a = Some k then map_option (\<lambda>n. n\<lparr>val := Some v\<rparr>) (deref h a) else deref h a)"
  by (cases "a < length h"; cases "h ! a") (auto simp: set_vals_def deref_def key_of_def)

lemma accessors_set_vals:
  "nxt_of (set_vals k v h) a = nxt_of h a"
  "key_of (set_vals k v h) a = key_of h a"
  "down_of (set_vals k v h) a = down_of h a"
  "val_of (set_vals k v h) a = (if key_of h a = Some k then Some v else val_of h a)"
  by (auto simp: nxt_of_def key_of_def down_of_def val_of_def deref_set_vals split: option.splits)

lemma upsert_present:
  assumes wf: "wf_index s lvs M" and ex: "\<exists>a\<in>set (concat lvs). key_of (heap s) a = Some k"
  shows "upsert s k v = Some (Inr (s\<lparr>heap := set_vals k v (heap s)\<rparr>)) \<and>
     wf_index (s\<lparr>heap := set_vals k v (heap s)\<rparr>) lvs (M(k \<mapsto> v))"
proof -
  let ?h = "heap s"
  from wf have tw: "tower ?h lvs" and dist: "distinct (concat lvs)"
    and hd: "heads s = map hd lvs" and all: "set (concat lvs) = {..<length ?h}"
    by (auto simp: wf_index_def)
  from tw obtain lv post where lvs: "lvs = lv # post" by (cases lvs) auto
  have ok: "level_ok ?h lv" using tw lvs tower_level_ok by blast
  then have lvne: "lv \<noteq> []" by (auto simp: level_ok_def)
  then have c: "hd lv \<in> set lv" by simp
  have kc: "key_of ?h (hd lv) \<le> Some k" using ok by (simp add: level_ok_def)
  from upsertRec_update[OF tw[unfolded lvs] dist[unfolded lvs] c kc ex[unfolded lvs], of v]
  obtain h' where
    r: "upsertRec s (Some (hd lv)) k v = Some (Inr (None, s\<lparr>heap := h'\<rparr>))"
    and len: "length h' = length ?h"
    and pw: "\<And>a. deref h' a =
        (if a \<in> set (concat lvs) \<and> key_of ?h a = Some k
         then map_option (\<lambda>n. n\<lparr>val := Some v\<rparr>) (deref ?h a)
         else deref ?h a)"
    unfolding lvs by blast
  have "h' = set_vals k v ?h"
  proof (rule heap_eqI)
    show "length h' = length (set_vals k v ?h)" by (simp add: len set_vals_def)
  next
    fix a
    have "a \<notin> set (concat lvs) \<Longrightarrow> key_of ?h a = None"
    proof -
      assume "a \<notin> set (concat lvs)"
      with all have "\<not> a < length ?h" by blast
      then show ?thesis by (simp add: key_of_def deref_def)
    qed
    then show "deref h' a = deref (set_vals k v ?h) a"
      by (auto simp: pw deref_set_vals)
  qed
  with r have up: "upsert s k v = Some (Inr (s\<lparr>heap := set_vals k v ?h\<rparr>))"
    by (simp add: upsert_def hd lvs)
  let ?h' = "set_vals k v ?h"
  have tw': "tower ?h' lvs"
    using tower_cong[of lvs ?h' ?h] tw by (simp add: accessors_set_vals)
  from ex tower_last_key[OF tw] obtain b where b: "b \<in> set (last lvs)" "key_of ?h b = Some k"
    by blast
  from wf have c1: "\<And>a k'. a \<in> set (concat lvs) \<Longrightarrow> key_of ?h a = Some k' \<Longrightarrow>
      val_of ?h a = M k' \<and> M k' \<noteq> None"
    and c2: "\<And>k'. M k' \<noteq> None \<Longrightarrow> \<exists>a\<in>set (last lvs). key_of ?h a = Some k'"
    unfolding wf_index_def by blast+
  have "wf_index (s\<lparr>heap := ?h'\<rparr>) lvs (M(k \<mapsto> v))"
    unfolding wf_index_def
  proof (intro conjI)
    show "tower (heap (s\<lparr>heap := ?h'\<rparr>)) lvs" using tw' by simp
    show "distinct (concat lvs)" by fact
    show "heads (s\<lparr>heap := ?h'\<rparr>) = map hd lvs" using hd by simp
    show "set (concat lvs) = {..<length (heap (s\<lparr>heap := ?h'\<rparr>))}"
      using all by (simp add: set_vals_def)
    show "\<forall>a\<in>set (concat lvs). \<forall>k'. key_of (heap (s\<lparr>heap := ?h'\<rparr>)) a = Some k' \<longrightarrow>
        val_of (heap (s\<lparr>heap := ?h'\<rparr>)) a = (M(k \<mapsto> v)) k' \<and> (M(k \<mapsto> v)) k' \<noteq> None"
      using c1 by (auto simp: accessors_set_vals)
    show "\<forall>k'. (M(k \<mapsto> v)) k' \<noteq> None \<longrightarrow>
        (\<exists>a\<in>set (last lvs). key_of (heap (s\<lparr>heap := ?h'\<rparr>)) a = Some k')"
      using c2 b by (auto simp: accessors_set_vals)
  qed
  with up show ?thesis by simp
qed

lemma upsert_absent:
  assumes wf: "wf_index s lvs M" and no: "\<forall>a\<in>set (concat lvs). key_of (heap s) a \<noteq> Some k"
  shows "\<exists>h' lvs'.
     upsert s k v =
       Some (Inr (s\<lparr>heap := h',
          rnd := sdrop (min (length lvs - 1) (Suc (promotions (length lvs - 1) (rnd s)))) (rnd s)\<rparr>)) \<and>
     wf_index (s\<lparr>heap := h',
          rnd := sdrop (min (length lvs - 1) (Suc (promotions (length lvs - 1) (rnd s)))) (rnd s)\<rparr>)
       lvs' (M(k \<mapsto> v)) \<and>
     length h' = length (heap s) + Suc (promotions (length lvs - 1) (rnd s)) \<and>
     col_rel (length (heap s)) (Suc (promotions (length lvs - 1) (rnd s))) lvs lvs' \<and>
     (\<forall>a<length (heap s). key_of h' a = key_of (heap s) a \<and> val_of h' a = val_of (heap s) a \<and>
         down_of h' a = down_of (heap s) a) \<and>
     (\<forall>a. length (heap s) \<le> a \<and> a < length h' \<longrightarrow> key_of h' a = Some k \<and> val_of h' a = Some v)"
proof -
  let ?h = "heap s"
  from wf have tw: "tower ?h lvs" and dist: "distinct (concat lvs)"
    and hd: "heads s = map hd lvs" and all: "set (concat lvs) = {..<length ?h}"
    unfolding wf_index_def by blast+
  from wf have c1: "\<And>a k'. a \<in> set (concat lvs) \<Longrightarrow> key_of ?h a = Some k' \<Longrightarrow>
      val_of ?h a = M k' \<and> M k' \<noteq> None"
    and c2: "\<And>k'. M k' \<noteq> None \<Longrightarrow> \<exists>a\<in>set (last lvs). key_of ?h a = Some k'"
    unfolding wf_index_def by blast+
  from tw obtain lv post where lvs: "lvs = lv # post" by (cases lvs) auto
  let ?m = "length post"
  let ?q = "promotions ?m (rnd s)"
  let ?r = "sdrop (min ?m (Suc ?q)) (rnd s)"
  have m: "length lvs - 1 = ?m" by (simp add: lvs)
  have ok: "level_ok ?h lv" using tw lvs tower_level_ok by blast
  then have lvne: "lv \<noteq> []" by (auto simp: level_ok_def)
  then have c: "hd lv \<in> set lv" by simp
  have kc: "key_of ?h (hd lv) \<le> Some k" using ok by (simp add: level_ok_def)
  from upsertRec_insert[OF tw[unfolded lvs] dist[unfolded lvs] c kc no[unfolded lvs], of v]
  obtain h' lvs' where
    r: "upsertRec s (Some (hd lv)) k v =
       Some (Inr (if ?q = ?m then Some (length ?h + ?m) else None, s\<lparr>heap := h', rnd := ?r\<rparr>))"
    and len: "length h' = length ?h + Suc ?q"
    and tw': "tower h' lvs'" and dist': "distinct (concat lvs')"
    and cr: "col_rel (length ?h) (Suc ?q) lvs lvs'"
    and old: "\<And>a. a < length ?h \<Longrightarrow> key_of h' a = key_of ?h a \<and> val_of h' a = val_of ?h a \<and>
         down_of h' a = down_of ?h a"
    and new: "\<And>a. length ?h \<le> a \<Longrightarrow> a < length h' \<Longrightarrow> key_of h' a = Some k \<and> val_of h' a = Some v"
    unfolding lvs by blast
  let ?s' = "s\<lparr>heap := h', rnd := ?r\<rparr>"
  have up: "upsert s k v = Some (Inr ?s')"
    using r by (simp add: upsert_def hd lvs)
  have qle: "?q \<le> ?m" by (rule promotions_le)
  have cc: "set (concat lvs') = {..<length h'}"
  proof -
    have "min (Suc ?q) (length lvs) = Suc ?q" using qle by (simp add: lvs)
    with col_rel_concat[OF cr] all len show ?thesis by auto
  qed
  have lvsne: "lvs \<noteq> []" by (simp add: lvs)
  have bot: "length ?h \<in> set (last lvs')" by (rule col_rel_bottom[OF cr lvsne]) simp
  have sub: "set (last lvs) \<subseteq> set (last lvs')" by (rule col_rel_last[OF cr lvsne])
  have inold: "\<And>a. a \<in> set (concat lvs) \<Longrightarrow> a < length ?h" using all by blast
  have wf': "wf_index ?s' lvs' (M(k \<mapsto> v))"
    unfolding wf_index_def
  proof (intro conjI)
    show "tower (heap ?s') lvs'" using tw' by simp
    show "distinct (concat lvs')" by fact
    show "heads ?s' = map hd lvs'" using hd col_rel_heads[OF cr] by simp
    show "set (concat lvs') = {..<length (heap ?s')}" using cc by simp
    show "\<forall>a\<in>set (concat lvs'). \<forall>k'. key_of (heap ?s') a = Some k' \<longrightarrow>
        val_of (heap ?s') a = (M(k \<mapsto> v)) k' \<and> (M(k \<mapsto> v)) k' \<noteq> None"
    proof (intro ballI allI impI)
      fix a k' assume a: "a \<in> set (concat lvs')" and k': "key_of (heap ?s') a = Some k'"
      show "val_of (heap ?s') a = (M(k \<mapsto> v)) k' \<and> (M(k \<mapsto> v)) k' \<noteq> None"
      proof (cases "a < length ?h")
        case True
        then have "a \<in> set (concat lvs)" using all by blast
        moreover from True k' old[of a] have "key_of ?h a = Some k'" by simp
        ultimately show ?thesis using c1[of a k'] no old[OF True] by auto
      next
        case False
        with a cc new[of a] k' show ?thesis by auto
      qed
    qed
    show "\<forall>k'. (M(k \<mapsto> v)) k' \<noteq> None \<longrightarrow> (\<exists>a\<in>set (last lvs'). key_of (heap ?s') a = Some k')"
    proof (intro allI impI)
      fix k' assume k': "(M(k \<mapsto> v)) k' \<noteq> None"
      show "\<exists>a\<in>set (last lvs'). key_of (heap ?s') a = Some k'"
      proof (cases "k' = k")
        case True
        with bot new[of "length ?h"] len show ?thesis by auto
      next
        case False
        with k' c2[of k'] obtain a where a: "a \<in> set (last lvs)" "key_of ?h a = Some k'" by auto
        then have "a \<in> set (concat lvs)" using last_subset_concat[OF lvsne] by blast
        with a old[OF inold, of a] sub show ?thesis by auto
      qed
    qed
  qed
  show ?thesis
    apply (intro exI[of _ h'] exI[of _ lvs'] conjI)
    subgoal using up unfolding m by simp
    subgoal using wf' unfolding m by simp
    subgoal using len unfolding m by simp
    subgoal using cr unfolding m by simp
    subgoal using old by simp
    subgoal using new by simp
    done
qed

lemma upsert_wf:
  assumes "wf_index s lvs M"
  shows "\<exists>s' lvs'. upsert s k v = Some (Inr s') \<and> wf_index s' lvs' (M(k \<mapsto> v)) \<and>
     length lvs' = length lvs"
proof (cases "\<exists>a\<in>set (concat lvs). key_of (heap s) a = Some k")
  case True
  from upsert_present[OF assms True, of v] show ?thesis by blast
next
  case False
  then have "\<forall>a\<in>set (concat lvs). key_of (heap s) a \<noteq> Some k" by blast
  from upsert_absent[OF assms this, of v] show ?thesis
    using col_rel_length by blast
qed

subsection \<open>Lookup\<close>

lemma find_loop_bottom:
  assumes "deref (heap s) m = Some n" "down n = None"
  shows "find_loop s m k = Some (Inr (if key n = Some k then val n else None, s))"
  using assms by (subst find_loop.simps) (auto simp: has_value_def opt_ne_def split: option.splits)

lemma find_loop_hit:
  assumes "deref (heap s) m = Some n" "down n = Some d" "key n = Some k"
  shows "find_loop s m k = Some (Inr (val n, s))"
  using assms by (subst find_loop.simps) (simp add: has_value_def opt_eq_def)

lemma find_loop_descend:
  assumes "deref (heap s) m = Some n" "down n = Some d" "key n \<noteq> Some k"
    "findInLevel (heap s) d k = Some (Inr m')"
  shows "find_loop s m k = find_loop s m' k"
  using assms by (subst find_loop.simps) (auto simp: has_value_def opt_eq_def split: option.splits)

lemma find_loop_tower:
  assumes "tower (heap s) (lv # post)" "lv = xs @ m # ys" "key_of (heap s) m \<le> Some k"
    "\<forall>a\<in>set ys. Some k < key_of (heap s) a"
  shows "\<exists>r. find_loop s m k = Some (Inr (r, s)) \<and>
     ((\<exists>a\<in>set (concat (lv # post)). key_of (heap s) a = Some k \<and> r = val_of (heap s) a) \<or>
      (r = None \<and> (\<forall>a\<in>set (concat (lv # post)). key_of (heap s) a \<noteq> Some k)))"
  using assms
proof (induction post arbitrary: lv m xs ys)
  case Nil
  let ?h = "heap s"
  from Nil.prems(1) have ok: "level_ok ?h lv" and bot: "bottom ?h lv" by auto
  have min: "m \<in> set lv" using Nil.prems(2) by simp
  from ok min obtain n where n: "deref ?h m = Some n"
    using chain_valid[of ?h lv m] by (auto simp: level_ok_def)
  have dn: "down n = None" using bot min n by (auto simp: bottom_def down_of_def)
  have uniq: "\<And>b. b \<in> set lv \<Longrightarrow> key_of ?h b = Some k \<Longrightarrow> b = m"
    by (rule level_key_unique[OF ok Nil.prems(2,3,4)])
  have kv: "key_of ?h m = key n" "val_of ?h m = val n" using n by (simp_all add: key_of_def val_of_def)
  show ?case
  proof (cases "key n = Some k")
    case True
    with find_loop_bottom[OF n dn, of k] min kv show ?thesis by auto
  next
    case False
    with uniq kv have "\<forall>a\<in>set lv. key_of ?h a \<noteq> Some k" by metis
    with find_loop_bottom[OF n dn, of k] False show ?thesis by simp
  qed
next
  case (Cons lw rest)
  let ?h = "heap s"
  from Cons.prems(1) have ok: "level_ok ?h lv" and lk: "links ?h lv lw"
    and tw: "tower ?h (lw # rest)" by auto
  have min: "m \<in> set lv" using Cons.prems(2) by simp
  from ok min obtain n where n: "deref ?h m = Some n"
    using chain_valid[of ?h lv m] by (auto simp: level_ok_def)
  from links_down[OF lk min] obtain d where
    d: "d \<in> set lw" "down_of ?h m = Some d" "key_of ?h d = key_of ?h m" by blast
  have dn: "down n = Some d" using d(2) n by (simp add: down_of_def)
  have uniq: "\<And>b. b \<in> set lv \<Longrightarrow> key_of ?h b = Some k \<Longrightarrow> b = m"
    by (rule level_key_unique[OF ok Cons.prems(2,3,4)])
  have kv: "key_of ?h m = key n" "val_of ?h m = val n" using n by (simp_all add: key_of_def val_of_def)
  show ?case
  proof (cases "key n = Some k")
    case True
    with find_loop_hit[OF n dn True] min kv show ?thesis by auto
  next
    case False
    with uniq kv have nolv: "\<forall>a\<in>set lv. key_of ?h a \<noteq> Some k" by metis
    have okw: "level_ok ?h lw" using tw tower_level_ok by blast
    have "key_of ?h d \<le> Some k" using d(3) Cons.prems(3) by simp
    from findInLevel_level[OF okw d(1) this] obtain xs' m' ys' where
      f: "lw = xs' @ m' # ys'" "findInLevel ?h d k = Some (Inr m')" "key_of ?h m' \<le> Some k"
        "\<forall>a\<in>set ys'. Some k < key_of ?h a" by blast
    from Cons.IH[OF tw f(1,3,4)] obtain r where
      r: "find_loop s m' k = Some (Inr (r, s))"
        "(\<exists>a\<in>set (concat (lw # rest)). key_of ?h a = Some k \<and> r = val_of ?h a) \<or>
         (r = None \<and> (\<forall>a\<in>set (concat (lw # rest)). key_of ?h a \<noteq> Some k))"
      by blast
    have "find_loop s m k = Some (Inr (r, s))"
      using find_loop_descend[OF n dn False f(2)] r(1) by simp
    moreover have "(\<exists>a\<in>set (concat (lv # lw # rest)). key_of ?h a = Some k \<and> r = val_of ?h a) \<or>
         (r = None \<and> (\<forall>a\<in>set (concat (lv # lw # rest)). key_of ?h a \<noteq> Some k))"
      using r(2) nolv by auto
    ultimately show ?thesis by blast
  qed
qed

lemma find_wf:
  assumes wf: "wf_index s lvs M"
  shows "find s k = Some (Inr (M k, s))"
proof -
  let ?h = "heap s"
  from wf have tw: "tower ?h lvs" and hd: "heads s = map hd lvs"
    unfolding wf_index_def by blast+
  from wf have c1: "\<And>a k'. a \<in> set (concat lvs) \<Longrightarrow> key_of ?h a = Some k' \<Longrightarrow>
      val_of ?h a = M k' \<and> M k' \<noteq> None"
    and c2: "\<And>k'. M k' \<noteq> None \<Longrightarrow> \<exists>a\<in>set (last lvs). key_of ?h a = Some k'"
    unfolding wf_index_def by blast+
  from tw obtain lv post where lvs: "lvs = lv # post" by (cases lvs) auto
  have ok: "level_ok ?h lv" using tw lvs tower_level_ok by blast
  then have "lv \<noteq> []" by (auto simp: level_ok_def)
  then have c: "hd lv \<in> set lv" by simp
  have kc: "key_of ?h (hd lv) \<le> Some k" using ok by (simp add: level_ok_def)
  from findInLevel_level[OF ok c kc] obtain xs m ys where
    f: "lv = xs @ m # ys" "findInLevel ?h (hd lv) k = Some (Inr m)" "key_of ?h m \<le> Some k"
      "\<forall>a\<in>set ys. Some k < key_of ?h a" by blast
  from find_loop_tower[OF tw[unfolded lvs] f(1,3,4)] obtain r where
    r: "find_loop s m k = Some (Inr (r, s))"
      "(\<exists>a\<in>set (concat lvs). key_of ?h a = Some k \<and> r = val_of ?h a) \<or>
       (r = None \<and> (\<forall>a\<in>set (concat lvs). key_of ?h a \<noteq> Some k))"
    unfolding lvs by blast
  have "r = M k"
    using r(2)
  proof
    assume "\<exists>a\<in>set (concat lvs). key_of ?h a = Some k \<and> r = val_of ?h a"
    with c1 show ?thesis by auto
  next
    assume n: "r = None \<and> (\<forall>a\<in>set (concat lvs). key_of ?h a \<noteq> Some k)"
    have "M k = None"
    proof (rule ccontr)
      assume "M k \<noteq> None"
      from c2[OF this] obtain a where "a \<in> set (last lvs)" "key_of ?h a = Some k" by blast
      with n last_subset_concat[of lvs] lvs show False by auto
    qed
    with n show ?thesis by simp
  qed
  with r(1) f(2) show ?thesis by (simp add: find_def hd lvs)
qed

subsection \<open>Sequences of upserts; the nodes of a level\<close>

lemma upserts_wf:
  "wf_index s lvs M \<Longrightarrow>
     \<exists>s' lvs'. upserts s ops = Some (Inr s') \<and> wf_index s' lvs' (M ++ map_of (rev ops)) \<and>
       length lvs' = length lvs"
proof (induction ops arbitrary: s lvs M)
  case Nil
  then show ?case by auto
next
  case (Cons kv ops)
  obtain k v where kv: "kv = (k, v)" by (cases kv)
  from upsert_wf[OF Cons.prems, of k v] obtain s1 lvs1 where
    u: "upsert s k v = Some (Inr s1)" "wf_index s1 lvs1 (M(k \<mapsto> v))" "length lvs1 = length lvs"
    by blast
  from Cons.IH[OF u(2)] obtain s' lvs' where
    r: "upserts s1 ops = Some (Inr s')" "wf_index s' lvs' (M(k \<mapsto> v) ++ map_of (rev ops))"
      "length lvs' = length lvs1" by blast
  have e: "M(k \<mapsto> v) ++ map_of (rev ops) = M ++ map_of (rev (kv # ops))"
    by (rule ext) (auto simp: kv map_add_def split: option.splits)
  have "upserts s (kv # ops) = Some (Inr s')" using u(1) r(1) by (simp add: kv)
  moreover have "wf_index s' lvs' (M ++ map_of (rev (kv # ops)))" using r(2) e by simp
  ultimately show ?case using r(3) u(3) by (intro exI[of _ s'] exI[of _ lvs']) simp
qed

lemma index_after_wf:
  assumes "0 < H"
  shows "\<exists>s lvs. index_after H rs ops = Some (Inr s) \<and> wf_index s lvs (map_of (rev ops)) \<and>
     length lvs = H"
proof -
  from upserts_wf[OF wf_index_SkipList[OF assms, of rs], of ops] obtain s lvs where
    "upserts \<lparr>heap = sentinel_heap H, heads = [0..<H], rnd = rs\<rparr> ops = Some (Inr s)"
    "wf_index s lvs (map_of (rev ops))" "length lvs = H"
    by auto
  then show ?thesis
    by (intro exI[of _ s] exI[of _ lvs]) (simp add: index_after_def SkipList_eq)
qed

lemma chain_next_split:
  "chain h lv \<Longrightarrow> a \<in> set lv \<Longrightarrow> nxt_of h a = Some (Some b) \<Longrightarrow>
     \<exists>pre suf. lv = pre @ a # b # suf"
proof (induction h lv rule: chain.induct)
  case (3 h x y ys)
  show ?case
  proof (cases "a = x")
    case True
    with 3(2,4) have "y = b" by simp
    with True show ?thesis by (auto intro: exI[of _ "[]"])
  next
    case False
    with 3 obtain pre suf where "y # ys = pre @ a # b # suf" by auto
    then have "x # y # ys = (x # pre) @ a # b # suf" by simp
    then show ?thesis by blast
  qed
qed auto

lemma reach_in_chain_aux:
  "reach h x a \<Longrightarrow> chain h lv \<Longrightarrow> x = hd lv \<Longrightarrow> a \<in> set lv"
proof (induction rule: reach.induct)
  case (reach_start a)
  then show ?case by (cases lv) auto
next
  case (reach_step a b n c)
  then have b: "b \<in> set lv" by simp
  from reach_step have n: "nxt_of h b = Some (Some c)" by (simp add: nxt_of_def)
  from chain_next_split[OF reach_step.prems(1) b n] show ?case by auto
qed

lemma reach_in_chain: "chain h lv \<Longrightarrow> reach h (hd lv) a \<Longrightarrow> a \<in> set lv"
  using reach_in_chain_aux by blast

lemma chain_in_reach:
  "chain h (pre @ a # suf) \<Longrightarrow> reach h (hd (pre @ a # suf)) a"
proof (induction pre arbitrary: a suf rule: rev_induct)
  case Nil
  show ?case by (simp add: reach_start)
next
  case (snoc b pre)
  have e: "(pre @ [b]) @ a # suf = pre @ b # a # suf" by simp
  from snoc.prems have c: "chain h (pre @ b # a # suf)" by (simp only: e)
  from snoc.IH[OF c] have r: "reach h (hd (pre @ b # a # suf)) b" .
  from chain_suffix[OF c] have "chain h (b # a # suf)" by simp
  then obtain n where "deref h b = Some n" "nxt n = Some a" by (auto dest: nxt_of_Some)
  from reach_step[OF r this] show ?case by (simp only: e)
qed

lemma reach_chain_iff:
  assumes "chain h lv"
  shows "reach h (hd lv) a \<longleftrightarrow> a \<in> set lv"
proof
  assume "reach h (hd lv) a"
  with assms show "a \<in> set lv" by (rule reach_in_chain)
next
  assume "a \<in> set lv"
  then obtain pre suf where "lv = pre @ a # suf" by (meson split_list)
  with assms chain_in_reach[of h pre a suf] show "reach h (hd lv) a" by simp
qed

lemma tower_nth:
  "tower h lvs \<Longrightarrow> L < length lvs \<Longrightarrow>
     level_ok h (lvs ! L) \<and>
     (if Suc L < length lvs then links h (lvs ! L) (lvs ! Suc L) else bottom h (lvs ! L))"
proof (induction h lvs arbitrary: L rule: tower.induct)
  case (3 h lv lw rest)
  show ?case
  proof (cases L)
    case 0
    with 3(2) show ?thesis by simp
  next
    case (Suc L')
    with 3(1)[of L'] 3(2,3) show ?thesis by (simp split: if_splits)
  qed
qed auto

lemma on_level_iff:
  assumes "wf_index s lvs M"
  shows "on_level s L a \<longleftrightarrow> L < length lvs \<and> a \<in> set (lvs ! L)"
proof (cases "L < length lvs")
  case True
  from assms have tw: "tower (heap s) lvs" and hd: "heads s = map hd lvs"
    unfolding wf_index_def by blast+
  from tower_nth[OF tw True] have "chain (heap s) (lvs ! L)" by (simp add: level_ok_def)
  from reach_chain_iff[OF this] True hd show ?thesis by (simp add: on_level_def)
next
  case False
  with assms show ?thesis by (simp add: on_level_def wf_index_def)
qed

lemma index_after_wfD:
  assumes "1 \<le> H" "index_after H rs ops = Some (Inr s)"
  shows "\<exists>lvs. wf_index s lvs (map_of (rev ops)) \<and> length lvs = H"
proof -
  from assms(1) have "0 < H" by simp
  from index_after_wf[OF this, of rs ops] assms(2) show ?thesis by auto
qed

lemma wf_index_heads: "wf_index s lvs M \<Longrightarrow> length (heads s) = length lvs"
  by (simp add: wf_index_def)

lemma level_key_inj:
  assumes "level_ok h lv" "a \<in> set lv" "b \<in> set lv" "key_of h a = key_of h b"
  shows "a = b"
proof -
  from assms(1) have "sorted_wrt (<) (map (key_of h) lv)" by (simp add: level_ok_def)
  then have "distinct (map (key_of h) lv)" by (simp add: strict_sorted_iff)
  then have "inj_on (key_of h) (set lv)" by (simp add: distinct_map)
  with assms(2-) show ?thesis by (auto dest: inj_onD)
qed

lemma level_next_sorted:
  assumes "level_ok h lv" "a \<in> set lv" "nxt_of h a = Some (Some b)"
  shows "b \<in> set lv \<and> key_of h a < key_of h b"
proof -
  from assms have ch: "chain h lv" and so: "sorted_wrt (<) (map (key_of h) lv)"
    by (simp_all add: level_ok_def)
  from chain_next_split[OF ch assms(2,3)] obtain pre suf where "lv = pre @ a # b # suf" by blast
  with so show ?thesis by (auto simp: sorted_wrt_append)
qed

subsection \<open>An example index\<close>

lemmas run_simps = SkipList_def fresh_def alloc_def store_def deref_def index_after_def
  upsert_def upsertRec.simps findInLevel.simps insert_after_def chainNode_def rand_def
  find_def find_loop.simps opt_gt_def opt_eq_def opt_ne_def has_value_def eval_nat_numeral

lemma example_index_built:
  "index_after 3 (cycle [1, 0, 0]) [(1, 10), (2, 20)] = Some (Inr example_index)"
  by (simp add: run_simps example_index_def)

lemma reach_next: "deref h a = Some n \<Longrightarrow> nxt n = Some b \<Longrightarrow> reach h a b"
  by (rule reach_step[OF reach_start])

lemma example_on_level:
  "on_level example_index 2 2" "on_level example_index 2 3" "on_level example_index 2 5"
  "on_level example_index 1 1" "on_level example_index 1 4" "on_level example_index 0 0"
proof -
  let ?h = "heap example_index"
  have d: "deref ?h 2 = Some \<lparr>down = None, nxt = Some 3, key = None, val = None\<rparr>"
    "deref ?h 3 = Some \<lparr>down = None, nxt = Some 5, key = Some 1, val = Some 10\<rparr>"
    "deref ?h 1 = Some \<lparr>down = Some 2, nxt = Some 4, key = None, val = None\<rparr>"
    by (simp_all add: example_index_def deref_def)
  have h: "heads example_index = [0, 1, 2]" by (simp add: example_index_def)
  have r3: "reach ?h 2 3" by (rule reach_next[OF d(1)]) simp
  have r5: "reach ?h 2 5" by (rule reach_step[OF r3 d(2)]) simp
  have r4: "reach ?h 1 4" by (rule reach_next[OF d(3)]) simp
  show "on_level example_index 2 2" "on_level example_index 2 3" "on_level example_index 2 5"
    "on_level example_index 1 1" "on_level example_index 1 4" "on_level example_index 0 0"
    using r3 r5 r4 reach_start[of ?h] by (simp_all add: on_level_def h)
qed

lemma tower_column_down:
  assumes tw: "tower h lvs" and L: "a \<in> set (lvs ! L)" "key_of h a = Some K"
    and le: "L \<le> L'" and lt: "L' < length lvs"
  shows "\<exists>b\<in>set (lvs ! L'). key_of h b = Some K"
  using le lt
proof (induction L' rule: dec_induct)
  case base
  from L show ?case by blast
next
  case (step n)
  then obtain b where b: "b \<in> set (lvs ! n)" "key_of h b = Some K" by auto
  from step.prems tower_nth[OF tw, of n] have "links h (lvs ! n) (lvs ! Suc n)" by simp
  from links_down[OF this b(1)] b(2) show ?case by auto
qed

lemma on_level_concat:
  assumes "wf_index s lvs M"
  shows "a \<in> set (concat lvs) \<longleftrightarrow> (\<exists>L. on_level s L a)"
proof -
  have "a \<in> set (concat lvs) \<longleftrightarrow> (\<exists>lv\<in>set lvs. a \<in> set lv)" by simp
  also have "\<dots> \<longleftrightarrow> (\<exists>L<length lvs. a \<in> set (lvs ! L))"
    by (metis in_set_conv_nth)
  finally have "a \<in> set (concat lvs) \<longleftrightarrow> (\<exists>L<length lvs. a \<in> set (lvs ! L))" .
  then show ?thesis using on_level_iff[OF assms] by auto
qed

lemma col_rel_nth:
  "col_rel b t lvs lvs' \<Longrightarrow> L < length lvs \<Longrightarrow>
     set (lvs' ! L) = set (lvs ! L) \<union>
       (if length lvs - Suc L < t then {b + (length lvs - Suc L)} else {})"
proof (induction b t lvs lvs' arbitrary: L rule: col_rel.induct)
  case (2 b t lv post lv' post')
  show ?case
  proof (cases L)
    case 0
    with 2(2) show ?thesis by simp
  next
    case (Suc L')
    with 2(1)[of L'] 2(2,3) show ?thesis by simp
  qed
qed auto

lemma find_loop_frame:
  assumes "find_loop (s :: ('a::linorder, 'b) state) m k = Some y"
  shows "\<forall>r s'. y = Inr (r, s') \<longrightarrow> s' = s"
proof (rule find_loop.raw_induct[where P = "\<lambda>s m k y. \<forall>r s'. y = Inr (r, s') \<longrightarrow> s' = s",
      OF _ assms])
  fix f :: "('a::linorder, 'b) state \<Rightarrow> nat \<Rightarrow> 'a \<Rightarrow> (fault + 'b option \<times> ('a, 'b) state) option"
    and s m k y
  assume IH: "\<And>s m k y. f s m k = Some y \<Longrightarrow> \<forall>r s'. y = Inr (r, s') \<longrightarrow> s' = s"
    and body: "(case deref (heap s) m of
       None \<Rightarrow> Some (Inl InvalidPointer)
     | Some n \<Rightarrow>
         (case down n of
            None \<Rightarrow>
              if \<not> has_value (key n) \<or> opt_ne (key n) k then Some (Inr (None, s))
              else Some (Inr (val n, s))
          | Some d \<Rightarrow>
              if has_value (key n) \<and> opt_eq (key n) k then Some (Inr (val n, s))
              else (case findInLevel (heap s) d k of
                      None \<Rightarrow> None
                    | Some (Inl e) \<Rightarrow> Some (Inl e)
                    | Some (Inr m) \<Rightarrow> f s m k))) = Some y"
  show "\<forall>r s'. y = Inr (r, s') \<longrightarrow> s' = s"
    using IH body by (auto split: option.splits if_splits sum.splits)
qed

lemma find_frame: "find s k = Some (Inr (r, s')) \<Longrightarrow> s' = s"
  using find_loop_frame by (fastforce simp: find_def split: list.splits option.splits sum.splits)

subsection \<open>The two variants compute the same\<close>

lemma findInLevel_sw_imp:
  assumes "findInLevel_sw (h :: ('a::linorder, 'b) heap) c k = Some y"
  shows "findInLevel h c k = Some y"
proof (rule findInLevel_sw.raw_induct[where P = "\<lambda>h c k y. findInLevel h c k = Some y",
      OF _ assms])
  fix f :: "('a, 'b) heap \<Rightarrow> nat \<Rightarrow> 'a \<Rightarrow> (fault + nat) option" and h c k y
  assume IH: "\<And>h c k y. f h c k = Some y \<Longrightarrow> findInLevel h c k = Some y"
    and body: "(case deref h c of
        None \<Rightarrow> Some (Inl InvalidPointer)
      | Some c' \<Rightarrow>
          (case nxt c' of
             None \<Rightarrow> Some (Inr c)
           | Some n \<Rightarrow>
               (case deref h n of
                  None \<Rightarrow> Some (Inl InvalidPointer)
                | Some nn \<Rightarrow>
                    if opt_gt (key nn) k then Some (Inr c)
                    else f h n k))) = Some y"
  show "findInLevel h c k = Some y"
    using IH body by (subst findInLevel.simps) (auto split: option.splits if_splits)
qed

lemma findInLevel_imp_sw:
  assumes "findInLevel (h :: ('a::linorder, 'b) heap) c k = Some y"
  shows "findInLevel_sw h c k = Some y"
proof (rule findInLevel.raw_induct[where P = "\<lambda>h c k y. findInLevel_sw h c k = Some y",
      OF _ assms])
  fix f :: "('a, 'b) heap \<Rightarrow> nat \<Rightarrow> 'a \<Rightarrow> (fault + nat) option" and h c k y
  assume IH: "\<And>h c k y. f h c k = Some y \<Longrightarrow> findInLevel_sw h c k = Some y"
    and body: "(case deref h c of
        None \<Rightarrow> Some (Inl InvalidPointer)
      | Some c' \<Rightarrow>
          (case nxt c' of
             None \<Rightarrow> Some (Inr c)
           | Some n \<Rightarrow>
               (case deref h n of
                  None \<Rightarrow> Some (Inl InvalidPointer)
                | Some nn \<Rightarrow>
                    if opt_gt (key nn) k then Some (Inr c)
                    else f h n k))) = Some y"
  show "findInLevel_sw h c k = Some y"
    using IH body by (subst findInLevel_sw.simps) (auto split: option.splits if_splits)
qed

lemma findInLevel_sw_eq: "findInLevel_sw h c k = findInLevel h c k"
proof (cases "findInLevel_sw h c k")
  case None
  show ?thesis
  proof (cases "findInLevel h c k")
    case (Some y)
    from findInLevel_imp_sw[OF this] None show ?thesis by simp
  qed (simp add: None)
next
  case (Some y)
  from findInLevel_sw_imp[OF this] Some show ?thesis by simp
qed

lemma chainNode_sw_eq: "chainNode_sw p n h = chainNode p n h"
  by (simp add: chainNode_sw_def chainNode_def)

lemma insert_after_sw_eq: "insert_after_sw p n s = insert_after p n s"
  by (simp add: insert_after_sw_def insert_after_def chainNode_sw_eq)

lemma findInLevel_sw_fun: "findInLevel_sw = findInLevel"
  by (intro ext) (rule findInLevel_sw_eq)

lemma insert_after_sw_fun: "insert_after_sw = insert_after"
  by (intro ext) (rule insert_after_sw_eq)

lemma upsertRec_sw_imp:
  assumes "upsertRec_sw (s :: ('a::linorder, 'b) state) c k v = Some y"
  shows "upsertRec s c k v = Some y"
proof (rule upsertRec_sw.raw_induct[where P = "\<lambda>s c k v y. upsertRec s c k v = Some y",
      OF _ assms])
  fix f :: "('a, 'b) state \<Rightarrow> nat option \<Rightarrow> 'a \<Rightarrow> 'b \<Rightarrow> (fault + nat option \<times> ('a, 'b) state) option"
    and s current k v y
  assume IH: "\<And>s c k v y. f s c k v = Some y \<Longrightarrow> upsertRec s c k v = Some y"
    and body: "(case current of
        None \<Rightarrow> Some (Inr (None, s))
      | Some cur \<Rightarrow>
          (case findInLevel_sw (heap s) cur k of
             None \<Rightarrow> None
           | Some (Inl e) \<Rightarrow> Some (Inl e)
           | Some (Inr insertNode) \<Rightarrow>
               (case deref (heap s) insertNode of
                  None \<Rightarrow> Some (Inl InvalidPointer)
                | Some n \<Rightarrow>
                    if has_value (key n) \<and> opt_eq (key n) k then
                      Option.bind
                        (f (s\<lparr>heap := (heap s)[insertNode := Some (n\<lparr>val := Some v\<rparr>)]\<rparr>)
                           (down n) k v)
                        (\<lambda>res. case res of
                           Inl e \<Rightarrow> Some (Inl e)
                         | Inr (r, s') \<Rightarrow> Some (Inr (None, s')))
                    else if \<not> has_value (down n) then
                      insert_after_sw insertNode
                        \<lparr>down = None, nxt = None, key = Some k, val = Some v\<rparr> s
                    else
                      Option.bind (f s (down n) k v)
                        (\<lambda>res. case res of
                           Inl e \<Rightarrow> Some (Inl e)
                         | Inr (None, s') \<Rightarrow> Some (Inr (None, s'))
                         | Inr (Some childNode, s') \<Rightarrow>
                             (case rand s' of
                                (r, s'') \<Rightarrow>
                                  if r AND 1 \<noteq> 0 then
                                    insert_after_sw insertNode
                                      \<lparr>down = Some childNode, nxt = None,
                                       key = Some k, val = Some v\<rparr> s''
                                  else Some (Inr (None, s''))))))) = Some y"
  note body = body[unfolded findInLevel_sw_fun insert_after_sw_fun]
  show "upsertRec s current k v = Some y"
  proof (cases current)
    case None
    with body show ?thesis by (simp add: upsertRec_null)
  next
    case (Some cur)
    show ?thesis
    proof (cases "findInLevel (heap s) cur k")
      case None
      with body Some show ?thesis by simp
    next
      case fl: (Some res)
      show ?thesis
      proof (cases res)
        case (Inl e)
        with body Some fl show ?thesis
          by (subst upsertRec.simps) simp
      next
        case (Inr p)
        show ?thesis
        proof (cases "deref (heap s) p")
          case None
          with body Some fl Inr show ?thesis
            by (subst upsertRec.simps) simp
        next
          case dn: (Some n)
          consider (upd) "has_value (key n) \<and> opt_eq (key n) k"
            | (leaf) "\<not> (has_value (key n) \<and> opt_eq (key n) k)" "\<not> has_value (down n)"
            | (inner) "\<not> (has_value (key n) \<and> opt_eq (key n) k)" "has_value (down n)"
            by blast
          then show ?thesis
          proof cases
            case upd
            with body Some fl Inr dn obtain res' where
              r: "f (s\<lparr>heap := (heap s)[p := Some (n\<lparr>val := Some v\<rparr>)]\<rparr>) (down n) k v = Some res'"
                "(case res' of Inl e \<Rightarrow> Some (Inl e) | Inr (r, s') \<Rightarrow> Some (Inr (None, s'))) = Some y"
              by (auto simp: bind_eq_Some_conv)
            from IH[OF r(1)] r(2) upd Some fl Inr dn show ?thesis
              by (subst upsertRec.simps) simp
          next
            case leaf
            with body Some fl Inr dn show ?thesis
              by (subst upsertRec.simps) auto
          next
            case inner
            with body Some fl Inr dn obtain res' where
              r: "f s (down n) k v = Some res'"
                "(case res' of
                           Inl e \<Rightarrow> Some (Inl e)
                         | Inr (None, s') \<Rightarrow> Some (Inr (None, s'))
                         | Inr (Some childNode, s') \<Rightarrow>
                             (case rand s' of
                                (r, s'') \<Rightarrow>
                                  if r AND 1 \<noteq> 0 then
                                    insert_after p
                                      \<lparr>down = Some childNode, nxt = None,
                                       key = Some k, val = Some v\<rparr> s''
                                  else Some (Inr (None, s'')))) = Some y"
              by (auto simp: bind_eq_Some_conv)
            from IH[OF r(1)] r(2) inner Some fl Inr dn show ?thesis
              by (subst upsertRec.simps) auto
          qed
        qed
      qed
    qed
  qed
qed

lemma upsertRec_imp_sw:
  assumes "upsertRec (s :: ('a::linorder, 'b) state) c k v = Some y"
  shows "upsertRec_sw s c k v = Some y"
proof (rule upsertRec.raw_induct[where P = "\<lambda>s c k v y. upsertRec_sw s c k v = Some y",
      OF _ assms])
  fix f :: "('a, 'b) state \<Rightarrow> nat option \<Rightarrow> 'a \<Rightarrow> 'b \<Rightarrow> (fault + nat option \<times> ('a, 'b) state) option"
    and s current k v y
  assume IH: "\<And>s c k v y. f s c k v = Some y \<Longrightarrow> upsertRec_sw s c k v = Some y"
    and body: "(case current of
        None \<Rightarrow> Some (Inr (None, s))
      | Some cur \<Rightarrow>
          (case findInLevel (heap s) cur k of
             None \<Rightarrow> None
           | Some (Inl e) \<Rightarrow> Some (Inl e)
           | Some (Inr insertNode) \<Rightarrow>
               (case deref (heap s) insertNode of
                  None \<Rightarrow> Some (Inl InvalidPointer)
                | Some n \<Rightarrow>
                    if has_value (key n) \<and> opt_eq (key n) k then
                      Option.bind
                        (f (s\<lparr>heap := (heap s)[insertNode := Some (n\<lparr>val := Some v\<rparr>)]\<rparr>)
                           (down n) k v)
                        (\<lambda>res. case res of
                           Inl e \<Rightarrow> Some (Inl e)
                         | Inr (r, s') \<Rightarrow> Some (Inr (None, s')))
                    else if \<not> has_value (down n) then
                      insert_after insertNode
                        \<lparr>down = None, nxt = None, key = Some k, val = Some v\<rparr> s
                    else
                      Option.bind (f s (down n) k v)
                        (\<lambda>res. case res of
                           Inl e \<Rightarrow> Some (Inl e)
                         | Inr (None, s') \<Rightarrow> Some (Inr (None, s'))
                         | Inr (Some childNode, s') \<Rightarrow>
                             (case rand s' of
                                (r, s'') \<Rightarrow>
                                  if r AND 1 \<noteq> 0 then
                                    insert_after insertNode
                                      \<lparr>down = Some childNode, nxt = None,
                                       key = Some k, val = Some v\<rparr> s''
                                  else Some (Inr (None, s''))))))) = Some y"
  show "upsertRec_sw s current k v = Some y"
  proof (cases current)
    case None
    with body show ?thesis by (subst upsertRec_sw.simps) simp
  next
    case (Some cur)
    show ?thesis
    proof (cases "findInLevel (heap s) cur k")
      case None
      with body Some show ?thesis
        by (subst upsertRec_sw.simps, unfold findInLevel_sw_fun insert_after_sw_fun) simp
    next
      case fl: (Some res)
      show ?thesis
      proof (cases res)
        case (Inl e)
        with body Some fl show ?thesis
          by (subst upsertRec_sw.simps, unfold findInLevel_sw_fun insert_after_sw_fun) simp
      next
        case (Inr p)
        show ?thesis
        proof (cases "deref (heap s) p")
          case None
          with body Some fl Inr show ?thesis
            by (subst upsertRec_sw.simps, unfold findInLevel_sw_fun insert_after_sw_fun) simp
        next
          case dn: (Some n)
          consider (upd) "has_value (key n) \<and> opt_eq (key n) k"
            | (leaf) "\<not> (has_value (key n) \<and> opt_eq (key n) k)" "\<not> has_value (down n)"
            | (inner) "\<not> (has_value (key n) \<and> opt_eq (key n) k)" "has_value (down n)"
            by blast
          then show ?thesis
          proof cases
            case upd
            with body Some fl Inr dn obtain res' where
              r: "f (s\<lparr>heap := (heap s)[p := Some (n\<lparr>val := Some v\<rparr>)]\<rparr>) (down n) k v = Some res'"
                "(case res' of Inl e \<Rightarrow> Some (Inl e) | Inr (r, s') \<Rightarrow> Some (Inr (None, s'))) = Some y"
              by (auto simp: bind_eq_Some_conv)
            from IH[OF r(1)] r(2) upd Some fl Inr dn show ?thesis
              by (subst upsertRec_sw.simps, unfold findInLevel_sw_fun insert_after_sw_fun) simp
          next
            case leaf
            with body Some fl Inr dn show ?thesis
              by (subst upsertRec_sw.simps, unfold findInLevel_sw_fun insert_after_sw_fun) auto
          next
            case inner
            with body Some fl Inr dn obtain res' where
              r: "f s (down n) k v = Some res'"
                "(case res' of
                           Inl e \<Rightarrow> Some (Inl e)
                         | Inr (None, s') \<Rightarrow> Some (Inr (None, s'))
                         | Inr (Some childNode, s') \<Rightarrow>
                             (case rand s' of
                                (r, s'') \<Rightarrow>
                                  if r AND 1 \<noteq> 0 then
                                    insert_after p
                                      \<lparr>down = Some childNode, nxt = None,
                                       key = Some k, val = Some v\<rparr> s''
                                  else Some (Inr (None, s'')))) = Some y"
              by (auto simp: bind_eq_Some_conv)
            from IH[OF r(1)] r(2) inner Some fl Inr dn show ?thesis
              by (subst upsertRec_sw.simps, unfold findInLevel_sw_fun insert_after_sw_fun) auto
          qed
        qed
      qed
    qed
  qed
qed

lemma upsertRec_sw_eq: "upsertRec_sw s c k v = upsertRec s c k v"
proof (cases "upsertRec_sw s c k v")
  case None
  show ?thesis
  proof (cases "upsertRec s c k v")
    case (Some y)
    from upsertRec_imp_sw[OF this] None show ?thesis by simp
  qed (simp add: None)
next
  case (Some y)
  from upsertRec_sw_imp[OF this] Some show ?thesis by simp
qed

lemma upsert_sw_eq: "upsert_sw s k v = upsert s k v"
  by (simp add: upsert_sw_def upsert_def upsertRec_sw_eq split: list.splits)

lemma upserts_sw_eq: "upserts_sw s ops = upserts s ops"
  by (induction s ops rule: upserts.induct) (auto simp: upsert_sw_eq split: option.splits sum.splits)

lemma SkipListAtomicSingleWriter_loop_eq:
  "SkipListAtomicSingleWriter_loop n prev s = SkipList_loop n prev s"
  by (induction n arbitrary: prev s) (auto split: prod.splits sum.splits option.splits)

lemma index_after_sw_eq: "index_after_sw H rs ops = index_after H rs ops"
  by (simp add: index_after_sw_def index_after_def SkipListAtomicSingleWriter_def SkipList_def
      SkipListAtomicSingleWriter_loop_eq upserts_sw_eq split: sum.splits)

lemma find_loop_imp_sw:
  assumes "find_loop (s :: ('a::linorder, 'b) state) m k = Some y"
  shows "valued (heap s) \<longrightarrow> find_loop_sw s m k = Some y"
proof (rule find_loop.raw_induct[where
      P = "\<lambda>s m k y. valued (heap s) \<longrightarrow> find_loop_sw s m k = Some y", OF _ assms])
  fix f :: "('a, 'b) state \<Rightarrow> nat \<Rightarrow> 'a \<Rightarrow> (fault + 'b option \<times> ('a, 'b) state) option"
    and s m k y
  assume IH: "\<And>s m k y. f s m k = Some y \<Longrightarrow> valued (heap s) \<longrightarrow> find_loop_sw s m k = Some y"
    and body: "(case deref (heap s) m of
       None \<Rightarrow> Some (Inl InvalidPointer)
     | Some n \<Rightarrow>
         (case down n of
            None \<Rightarrow>
              if \<not> has_value (key n) \<or> opt_ne (key n) k then Some (Inr (None, s))
              else Some (Inr (val n, s))
          | Some d \<Rightarrow>
              if has_value (key n) \<and> opt_eq (key n) k then Some (Inr (val n, s))
              else (case findInLevel (heap s) d k of
                      None \<Rightarrow> None
                    | Some (Inl e) \<Rightarrow> Some (Inl e)
                    | Some (Inr m) \<Rightarrow> f s m k))) = Some y"
  show "valued (heap s) \<longrightarrow> find_loop_sw s m k = Some y"
  proof
    assume v: "valued (heap s)"
    have lv: "\<And>n. deref (heap s) m = Some n \<Longrightarrow> has_value (key n) \<Longrightarrow>
        load_val n s = Some (Inr (val n, s))"
      using v by (auto simp: valued_def load_val_def has_value_def split: option.splits)
    show "find_loop_sw s m k = Some y"
      using IH body v lv
      by (subst find_loop_sw.simps, unfold findInLevel_sw_fun)
        (auto split: option.splits if_splits sum.splits simp: opt_ne_def has_value_def)
  qed
qed

lemma wf_index_valued:
  assumes "wf_index s lvs M"
  shows "valued (heap s)"
  unfolding valued_def
proof (intro allI impI)
  fix a n assume d: "deref (heap s) a = Some n" and k: "key n \<noteq> None"
  from assms have all: "set (concat lvs) = {..<length (heap s)}"
    and c1: "\<And>a k'. a \<in> set (concat lvs) \<Longrightarrow> key_of (heap s) a = Some k' \<Longrightarrow>
      val_of (heap s) a = M k' \<and> M k' \<noteq> None"
    unfolding wf_index_def by blast+
  from d deref_Some_lt[OF d] all have "a \<in> set (concat lvs)" by simp
  moreover from k obtain k' where "key n = Some k'" by auto
  ultimately show "val n \<noteq> None" using c1[of a k'] d by (simp add: key_of_def val_of_def)
qed

lemma find_sw_wf:
  assumes "wf_index s lvs M"
  shows "find_sw s k = find s k"
proof -
  from find_wf[OF assms, of k] have f: "find s k = Some (Inr (M k, s))" .
  from assms have "heads s = map hd lvs" "lvs \<noteq> []"
    by (auto simp: wf_index_def)
  then obtain head0 rest where h: "heads s = head0 # rest" by (cases lvs) auto
  with f obtain m where m: "findInLevel (heap s) head0 k = Some (Inr m)"
    "find_loop s m k = Some (Inr (M k, s))"
    by (auto simp: find_def split: option.splits sum.splits)
  from find_loop_imp_sw[OF m(2)] wf_index_valued[OF assms]
  have "find_loop_sw s m k = Some (Inr (M k, s))" by simp
  with m(1) h f show ?thesis by (simp add: find_sw_def findInLevel_sw_eq)
qed

subsection \<open>Releasing the nodes\<close>

lemma deref_release_notin: "a \<notin> set as \<Longrightarrow> deref (release as h) a = deref h a"
  by (induction as arbitrary: h) (auto simp: deref_update)

lemma deref_release_in: "a \<in> set as \<Longrightarrow> deref (release as h) a = None"
proof (induction as arbitrary: h)
  case Nil
  then show ?case by simp
next
  case (Cons b as)
  show ?case
  proof (cases "a \<in> set as")
    case True
    with Cons.IH show ?thesis by simp
  next
    case False
    with Cons.prems have ab: "a = b" by simp
    with False have "deref (release as (h[b := None])) a = deref (h[b := None]) a"
      by (simp add: deref_release_notin)
    also have "\<dots> = None" using ab by (auto simp: deref_update deref_def)
    finally show ?thesis by simp
  qed
qed

lemma length_release: "length (release as h) = length h"
  by (induction as arbitrary: h) auto

lemma clear_chain_null: "clear_chain h None = Some (Inr h)"
  by (subst clear_chain.simps) simp

lemma clear_chain_step:
  "deref h a = Some n \<Longrightarrow> clear_chain h (Some a) = clear_chain (h[a := None]) (nxt n)"
  by (subst clear_chain.simps) simp

lemma chain_free_other:
  assumes "chain h as" "a \<notin> set as"
  shows "chain (h[a := x]) as"
proof -
  have "chain (h[a := x]) as = chain h as"
    by (rule chain_cong) (use assms(2) in \<open>auto simp: nxt_of_def deref_update\<close>)
  with assms(1) show ?thesis by simp
qed

lemma clear_chain_spec:
  "chain h (a # as) \<Longrightarrow> distinct (a # as) \<Longrightarrow>
     clear_chain h (Some a) = Some (Inr (release (a # as) h))"
proof (induction as arbitrary: a h)
  case Nil
  then obtain n where "deref h a = Some n" "nxt n = None" by (auto dest: nxt_of_Some)
  then show ?case by (simp add: clear_chain_step clear_chain_null)
next
  case (Cons b bs)
  from Cons.prems obtain n where n: "deref h a = Some n" "nxt n = Some b"
    by (auto dest: nxt_of_Some)
  from Cons.prems have "chain h (b # bs)" "a \<notin> set (b # bs)" by auto
  then have "chain (h[a := None]) (b # bs)" by (rule chain_free_other)
  moreover from Cons.prems have "distinct (b # bs)" by simp
  ultimately have "clear_chain (h[a := None]) (Some b) = Some (Inr (release (b # bs) (h[a := None])))"
    by (rule Cons.IH)
  with n show ?case by (simp add: clear_chain_step)
qed

lemma clear_level_spec:
  assumes "chain h lv" "distinct lv"
  shows "\<exists>n. deref h (hd lv) = Some n \<and>
     clear_chain (h[hd lv := Some (n\<lparr>nxt := None\<rparr>)]) (nxt n) =
       Some (Inr (release (tl lv) (h[hd lv := Some (n\<lparr>nxt := None\<rparr>)])))"
proof (cases lv)
  case Nil
  with assms show ?thesis by simp
next
  case (Cons a as)
  show ?thesis
  proof (cases as)
    case Nil
    with Cons assms obtain n where "deref h a = Some n" "nxt n = None" by (auto dest: nxt_of_Some)
    with Cons Nil show ?thesis by (simp add: clear_chain_null)
  next
    case (Cons b bs)
    with \<open>lv = a # as\<close> assms obtain n where n: "deref h a = Some n" "nxt n = Some b"
      by (auto dest: nxt_of_Some)
    from Cons \<open>lv = a # as\<close> assms have "chain h (b # bs)" "a \<notin> set (b # bs)" "distinct (b # bs)"
      by auto
    then have "chain (h[a := Some (n\<lparr>nxt := None\<rparr>)]) (b # bs)" "distinct (b # bs)"
      by (auto intro: chain_free_other)
    from clear_chain_spec[OF this] n Cons \<open>lv = a # as\<close> show ?thesis by simp
  qed
qed

lemma clear_levels_spec:
  "(\<And>lv. lv \<in> set lvs \<Longrightarrow> chain h lv) \<Longrightarrow> distinct (concat lvs) \<Longrightarrow>
   \<exists>h'. clear_levels (map hd lvs) h = Some (Inr h') \<and> length h' = length h \<and>
     (\<forall>a. a \<notin> set (concat lvs) \<longrightarrow> deref h' a = deref h a) \<and>
     (\<forall>a\<in>set (concat lvs). a \<notin> set (map hd lvs) \<longrightarrow> deref h' a = None)"
proof (induction lvs arbitrary: h)
  case Nil
  show ?case by simp
next
  case (Cons lv lvs)
  have ch: "chain h lv" using Cons.prems(1) by simp
  have dlv: "distinct lv" and dist: "distinct (concat lvs)"
    and disj: "set lv \<inter> set (concat lvs) = {}"
    using Cons.prems(2) by auto
  from ch have lvne: "lv \<noteq> []" by auto
  from clear_level_spec[OF ch dlv] obtain n where
    n: "deref h (hd lv) = Some n"
    and c: "clear_chain (h[hd lv := Some (n\<lparr>nxt := None\<rparr>)]) (nxt n) =
       Some (Inr (release (tl lv) (h[hd lv := Some (n\<lparr>nxt := None\<rparr>)])))"
    by blast
  let ?h1 = "release (tl lv) (h[hd lv := Some (n\<lparr>nxt := None\<rparr>)])"
  have setlv: "set lv = insert (hd lv) (set (tl lv))" using lvne by (cases lv) auto
  have hdtl: "hd lv \<notin> set (tl lv)" using dlv lvne by (cases lv) auto
  have out: "\<And>a. a \<notin> set lv \<Longrightarrow> deref ?h1 a = deref h a"
    using setlv by (simp add: deref_release_notin deref_update)
  have tlnone: "\<And>a. a \<in> set (tl lv) \<Longrightarrow> deref ?h1 a = None"
    by (rule deref_release_in)
  have "\<And>lw. lw \<in> set lvs \<Longrightarrow> chain ?h1 lw"
  proof -
    fix lw assume lw: "lw \<in> set lvs"
    then have "chain h lw" using Cons.prems(1) by simp
    moreover have "chain ?h1 lw = chain h lw"
    proof (rule chain_cong)
      fix a assume "a \<in> set lw"
      with lw disj have "a \<notin> set lv" by auto
      from out[OF this] show "nxt_of ?h1 a = nxt_of h a" by (simp add: nxt_of_def)
    qed
    ultimately show "chain ?h1 lw" by simp
  qed
  from Cons.IH[OF this dist] obtain h' where
    h': "clear_levels (map hd lvs) ?h1 = Some (Inr h')" "length h' = length ?h1"
      "\<And>a. a \<notin> set (concat lvs) \<Longrightarrow> deref h' a = deref ?h1 a"
      "\<And>a. a \<in> set (concat lvs) \<Longrightarrow> a \<notin> set (map hd lvs) \<Longrightarrow> deref h' a = None"
    by blast
  have r: "clear_levels (map hd (lv # lvs)) h = Some (Inr h')"
    using n c h'(1) by simp
  have l: "length h' = length h" using h'(2) by (simp add: length_release)
  have o: "\<forall>a. a \<notin> set (concat (lv # lvs)) \<longrightarrow> deref h' a = deref h a"
    using h'(3) out by simp
  have i: "\<forall>a\<in>set (concat (lv # lvs)). a \<notin> set (map hd (lv # lvs)) \<longrightarrow> deref h' a = None"
  proof (intro ballI impI)
    fix a assume a: "a \<in> set (concat (lv # lvs))" and nh: "a \<notin> set (map hd (lv # lvs))"
    show "deref h' a = None"
    proof (cases "a \<in> set lv")
      case True
      with nh setlv have t: "a \<in> set (tl lv)" by auto
      from True disj have "a \<notin> set (concat lvs)" by auto
      from h'(3)[OF this] tlnone[OF t] show ?thesis by simp
    next
      case False
      with a have "a \<in> set (concat lvs)" by simp
      with nh h'(4)[of a] show ?thesis by simp
    qed
  qed
  from r l o i show ?case by blast
qed

lemma clear_wf:
  assumes "wf_index s lvs M"
  shows "\<exists>h'. clear s = Some (Inr (s\<lparr>heap := h', heads := []\<rparr>)) \<and> length h' = length (heap s) \<and>
     (\<forall>a. deref h' a = None)"
proof -
  let ?h = "heap s"
  from assms have tw: "tower ?h lvs" and dist: "distinct (concat lvs)"
    and hd: "heads s = map hd lvs" and all: "set (concat lvs) = {..<length ?h}"
    unfolding wf_index_def by blast+
  have "\<And>lv. lv \<in> set lvs \<Longrightarrow> chain ?h lv"
  proof -
    fix lv assume "lv \<in> set lvs"
    then obtain L where "L < length lvs" "lvs ! L = lv" by (auto simp: in_set_conv_nth)
    with tower_nth[OF tw, of L] show "chain ?h lv" by (auto simp: level_ok_def)
  qed
  from clear_levels_spec[OF this dist] obtain h1 where
    h1: "clear_levels (map hd lvs) ?h = Some (Inr h1)" "length h1 = length ?h"
      "\<And>a. a \<notin> set (concat lvs) \<Longrightarrow> deref h1 a = deref ?h a"
      "\<And>a. a \<in> set (concat lvs) \<Longrightarrow> a \<notin> set (map hd lvs) \<Longrightarrow> deref h1 a = None"
    by blast
  let ?h' = "release (heads s) h1"
  have c: "clear s = Some (Inr (s\<lparr>heap := ?h', heads := []\<rparr>))"
    using h1(1) by (simp add: clear_def hd)
  have "\<forall>a. deref ?h' a = None"
  proof
    fix a
    show "deref ?h' a = None"
    proof (cases "a \<in> set (heads s)")
      case True
      then show ?thesis by (rule deref_release_in)
    next
      case False
      then have e: "deref ?h' a = deref h1 a" by (rule deref_release_notin)
      show ?thesis
      proof (cases "a \<in> set (concat lvs)")
        case True
        with False h1(4)[of a] e show ?thesis by (simp add: hd)
      next
        case False
        with all have "\<not> a < length ?h" by blast
        with h1(3)[OF False] e show ?thesis by (simp add: deref_def)
      qed
    qed
  qed
  with c h1(2) show ?thesis by (intro exI[of _ ?h']) (simp add: length_release)
qed

lemma cleared_faults:
  assumes "heads s = []"
  shows "upsert s k v = Some (Inl OutOfRange)" "find s k = Some (Inl OutOfRange)"
    "clear s = Some (Inr s)"
    "upsert_sw s k v = Some (Inl OutOfRange)" "find_sw s k = Some (Inl OutOfRange)"
    "clear_sw s = Some (Inr s)"
  using assms by (simp_all add: upsert_def find_def clear_def upsert_sw_def find_sw_def clear_sw_def)

lemma release_append: "release (as @ bs) h = release bs (release as h)"
  by (induction as arbitrary: h) auto

lemma clear_loop_sw_last:
  "deref h a = Some n \<Longrightarrow> clear_loop_sw h (Some a) None = Some (Inr (h[a := None]))"
  by (subst clear_loop_sw.simps) simp

lemma clear_loop_sw_step:
  "deref h a = Some n \<Longrightarrow> deref (h[a := None]) b = Some nb \<Longrightarrow>
     clear_loop_sw h (Some a) (Some b) = clear_loop_sw (h[a := None]) (Some b) (nxt nb)"
  by (subst clear_loop_sw.simps) simp

lemma clear_loop_sw_spec:
  "chain h (a # as) \<Longrightarrow> distinct (a # as) \<Longrightarrow> deref h a = Some n \<Longrightarrow>
     clear_loop_sw h (Some a) (nxt n) = Some (Inr (release (a # as) h))"
proof (induction as arbitrary: a h n)
  case Nil
  then have "nxt n = None" by (auto simp: nxt_of_def)
  with Nil.prems(3) show ?case by (simp add: clear_loop_sw_last)
next
  case (Cons b bs)
  from Cons.prems have nb: "nxt n = Some b" by (auto simp: nxt_of_def)
  from Cons.prems have cb: "chain h (b # bs)" and ab: "a \<notin> set (b # bs)"
    and db: "distinct (b # bs)" by auto
  from chain_valid[OF cb, of b] obtain m where m: "deref h b = Some m" by auto
  with ab have m1: "deref (h[a := None]) b = Some m" by (simp add: deref_update)
  have c1: "chain (h[a := None]) (b # bs)" using cb ab by (rule chain_free_other)
  from Cons.IH[OF c1 db m1]
  have "clear_loop_sw (h[a := None]) (Some b) (nxt m) = Some (Inr (release (b # bs) (h[a := None])))" .
  with clear_loop_sw_step[OF Cons.prems(3) m1] nb show ?case by simp
qed

lemma clear_levels_sw_spec:
  "(\<And>lv. lv \<in> set lvs \<Longrightarrow> chain h lv) \<Longrightarrow> distinct (concat lvs) \<Longrightarrow>
     clear_levels_sw (map hd lvs) h = Some (Inr (release (concat lvs) h))"
proof (induction lvs arbitrary: h)
  case Nil
  show ?case by simp
next
  case (Cons lv lvs)
  have ch: "chain h lv" using Cons.prems(1) by simp
  have dlv: "distinct lv" and dist: "distinct (concat lvs)"
    and disj: "set lv \<inter> set (concat lvs) = {}"
    using Cons.prems(2) by auto
  from ch obtain a as where lv: "lv = a # as" by (cases lv) auto
  from chain_valid[OF ch, of a] lv obtain n where n: "deref h a = Some n" by auto
  from clear_loop_sw_spec[OF ch[unfolded lv] dlv[unfolded lv] n]
  have c: "clear_loop_sw h (Some a) (nxt n) = Some (Inr (release lv h))" by (simp add: lv)
  have "\<And>lw. lw \<in> set lvs \<Longrightarrow> chain (release lv h) lw"
  proof -
    fix lw assume lw: "lw \<in> set lvs"
    then have "chain h lw" using Cons.prems(1) by simp
    moreover have "chain (release lv h) lw = chain h lw"
    proof (rule chain_cong)
      fix b assume "b \<in> set lw"
      with lw disj have "b \<notin> set lv" by auto
      then show "nxt_of (release lv h) b = nxt_of h b"
        by (simp add: nxt_of_def deref_release_notin)
    qed
    ultimately show "chain (release lv h) lw" by simp
  qed
  from Cons.IH[OF this dist]
  have "clear_levels_sw (map hd lvs) (release lv h) = Some (Inr (release (concat lvs) (release lv h)))" .
  with n c show ?case by (simp add: lv release_append)
qed

lemma clear_sw_wf:
  assumes "wf_index s lvs M"
  shows "\<exists>h'. clear_sw s = Some (Inr (s\<lparr>heap := h', heads := []\<rparr>)) \<and> length h' = length (heap s) \<and>
     (\<forall>a. deref h' a = None)"
proof -
  let ?h = "heap s"
  from assms have tw: "tower ?h lvs" and dist: "distinct (concat lvs)"
    and hd: "heads s = map hd lvs" and all: "set (concat lvs) = {..<length ?h}"
    unfolding wf_index_def by blast+
  have "\<And>lv. lv \<in> set lvs \<Longrightarrow> chain ?h lv"
  proof -
    fix lv assume "lv \<in> set lvs"
    then obtain L where "L < length lvs" "lvs ! L = lv" by (auto simp: in_set_conv_nth)
    with tower_nth[OF tw, of L] show "chain ?h lv" by (auto simp: level_ok_def)
  qed
  from clear_levels_sw_spec[OF this dist]
  have c: "clear_sw s = Some (Inr (s\<lparr>heap := release (concat lvs) ?h, heads := []\<rparr>))"
    by (simp add: clear_sw_def hd)
  have "\<forall>a. deref (release (concat lvs) ?h) a = None"
  proof
    fix a
    show "deref (release (concat lvs) ?h) a = None"
    proof (cases "a \<in> set (concat lvs)")
      case True
      then show ?thesis by (rule deref_release_in)
    next
      case False
      with all have "\<not> a < length ?h" by blast
      then have "deref ?h a = None" by (simp add: deref_def)
      with False show ?thesis by (simp add: deref_release_notin)
    qed
  qed
  with c show ?thesis by (intro exI[of _ "release (concat lvs) ?h"]) (simp add: length_release)
qed

section \<open>The claims\<close>

text \<open>
  C1. An index built with height at least 1 and filled by any finite sequence of upsert
  calls exists (construction and every upsert return), and on it \<open>find k\<close> returns the
  value of the most recent upsert of \<open>k\<close>, or nothing when \<open>k\<close> was never upserted;
  \<open>map_of (rev ops)\<close> is that most recent value. With no upsert at all every key is absent.
\<close>

theorem C1_find_latest_upsert:
  assumes "1 \<le> H"
  shows "\<exists>s. index_after H rs ops = Some (Inr s) \<and>
     (\<forall>k. find s k = Some (Inr (map_of (rev ops) k, s)))"
proof -
  from assms have "0 < H" by simp
  from index_after_wf[OF this, of rs ops] obtain s lvs where
    "index_after H rs ops = Some (Inr s)" "wf_index s lvs (map_of (rev ops))" by blast
  then show ?thesis using find_wf by blast
qed

theorem C1_find_latest_upsert_witness:
  "\<exists>s. index_after 2 (sconst 1) [(1::int, 10::int), (2, 20), (1, 11)] = Some (Inr s) \<and>
     find s 1 = Some (Inr (Some 11, s)) \<and> find s 2 = Some (Inr (Some 20, s)) \<and>
     find s 3 = Some (Inr (None, s))"
proof -
  have h: "(1::nat) \<le> 2" by simp
  from C1_find_latest_upsert[OF h, of "sconst 1" "[(1::int, 10::int), (2, 20), (1, 11)]"]
  obtain s where s: "index_after 2 (sconst 1) [(1::int, 10::int), (2, 20), (1, 11)] = Some (Inr s)"
    "\<And>k. find s k = Some (Inr (map_of (rev [(1::int, 10::int), (2, 20), (1, 11)]) k, s))"
    by blast
  show ?thesis
    by (rule exI[of _ s]) (simp add: s)
qed

text \<open>
  C3. After any sequence of upsert calls on an index built with height at least 1, a node
  \<open>a\<close> of any level that has a key \<open>x\<close> and a non-null next pointer \<open>b\<close> is followed
  by a node whose key is strictly greater than \<open>x\<close>.
\<close>

theorem C3_levels_sorted:
  assumes "1 \<le> H" and "index_after H rs ops = Some (Inr s)"
    and "on_level s L a" and "deref (heap s) a = Some n"
    and "key n = Some x" and "nxt n = Some b"
  shows "\<exists>m y. deref (heap s) b = Some m \<and> key m = Some y \<and> x < y"
proof -
  from index_after_wfD[OF assms(1,2)] obtain lvs where wf: "wf_index s lvs (map_of (rev ops))"
    by blast
  from assms(3) on_level_iff[OF wf] have L: "L < length lvs" "a \<in> set (lvs ! L)" by simp_all
  from wf have "tower (heap s) lvs" by (simp add: wf_index_def)
  from tower_nth[OF this L(1)] have ok: "level_ok (heap s) (lvs ! L)" by simp
  have "nxt_of (heap s) a = Some (Some b)" using assms(4,6) by (simp add: nxt_of_def)
  from level_next_sorted[OF ok L(2) this]
  have b: "b \<in> set (lvs ! L)" "key_of (heap s) a < key_of (heap s) b" by simp_all
  from ok b(1) obtain m where m: "deref (heap s) b = Some m"
    using chain_valid[of "heap s" "lvs ! L" b] by (auto simp: level_ok_def)
  from b(2) m assms(4,5) have "Some x < key m" by (simp add: key_of_def)
  then obtain y where "key m = Some y" "x < y" by (cases "key m") auto
  with m show ?thesis by blast
qed

theorem C3_levels_sorted_witness:
  "on_level example_index 2 3 \<and>
   (\<exists>m y. deref (heap example_index) 5 = Some m \<and> key m = Some y \<and> (1::int) < y)"
proof -
  have h: "(1::nat) \<le> 3" by simp
  have d: "deref (heap example_index) 3 =
      Some \<lparr>down = None, nxt = Some 5, key = Some 1, val = Some 10\<rparr>"
    by (simp add: example_index_def deref_def)
  from C3_levels_sorted[OF h example_index_built example_on_level(2) d]
  show ?thesis using example_on_level(2) by simp
qed

text \<open>
  C4. After any sequence of upsert calls, a node \<open>a\<close> of level \<open>L\<close> whose down pointer
  is \<open>d\<close> has \<open>d\<close> on level \<open>L + 1\<close>, an allocated node with the same key; and when
  \<open>a\<close> has key \<open>K\<close>, every level from \<open>L\<close> to the bottom level \<open>H - 1\<close> has a node
  with key \<open>K\<close>. The index has exactly \<open>H\<close> levels.
\<close>

theorem C4_column_integrity:
  assumes "1 \<le> H" and "index_after H rs ops = Some (Inr s)"
    and "on_level s L a" and "deref (heap s) a = Some n"
  shows "length (heads s) = H \<and>
     (\<forall>d. down n = Some d \<longrightarrow>
        on_level s (Suc L) d \<and> (\<exists>m. deref (heap s) d = Some m \<and> key m = key n)) \<and>
     (\<forall>K L'. key n = Some K \<and> L \<le> L' \<and> L' < H \<longrightarrow>
        (\<exists>b m. on_level s L' b \<and> deref (heap s) b = Some m \<and> key m = Some K))"
proof -
  let ?h = "heap s"
  from index_after_wfD[OF assms(1,2)] obtain lvs where
    wf: "wf_index s lvs (map_of (rev ops))" and len: "length lvs = H" by blast
  from assms(3) on_level_iff[OF wf] have L: "L < length lvs" "a \<in> set (lvs ! L)" by simp_all
  from wf have tw: "tower ?h lvs" by (simp add: wf_index_def)
  have kd: "key_of ?h a = key n" "down_of ?h a = down n"
    using assms(4) by (simp_all add: key_of_def down_of_def)
  have 1: "length (heads s) = H" using wf_index_heads[OF wf] len by simp
  have 2: "\<forall>d. down n = Some d \<longrightarrow>
        on_level s (Suc L) d \<and> (\<exists>m. deref ?h d = Some m \<and> key m = key n)"
  proof (intro allI impI)
    fix d assume d: "down n = Some d"
    have "Suc L < length lvs"
    proof (rule ccontr)
      assume "\<not> Suc L < length lvs"
      with tower_nth[OF tw L(1)] have "bottom ?h (lvs ! L)" by simp
      with L(2) kd d show False by (simp add: bottom_def)
    qed
    with tower_nth[OF tw L(1)] have lk: "links ?h (lvs ! L) (lvs ! Suc L)" by simp
    from links_down[OF lk L(2)] kd d have e: "d \<in> set (lvs ! Suc L)" "key_of ?h d = key n"
      by auto
    from tower_nth[OF tw \<open>Suc L < length lvs\<close>] have "chain ?h (lvs ! Suc L)"
      by (simp add: level_ok_def)
    from chain_valid[OF this e(1)] obtain m where m: "deref ?h d = Some m" by blast
    with e(2) have "key m = key n" by (simp add: key_of_def)
    with m e(1) \<open>Suc L < length lvs\<close> on_level_iff[OF wf, of "Suc L" d]
    show "on_level s (Suc L) d \<and> (\<exists>m. deref ?h d = Some m \<and> key m = key n)" by simp
  qed
  have 3: "\<forall>K L'. key n = Some K \<and> L \<le> L' \<and> L' < H \<longrightarrow>
        (\<exists>b m. on_level s L' b \<and> deref ?h b = Some m \<and> key m = Some K)"
  proof (intro allI impI)
    fix K L' assume a: "key n = Some K \<and> L \<le> L' \<and> L' < H"
    with kd have k: "key_of ?h a = Some K" by simp
    from a len have l: "L \<le> L'" "L' < length lvs" by simp_all
    from tower_column_down[OF tw L(2) k l] obtain b where
      b: "b \<in> set (lvs ! L')" "key_of ?h b = Some K" by blast
    then obtain m where "deref ?h b = Some m" "key m = Some K"
      by (auto simp: key_of_def split: option.splits)
    with b(1) l(2) on_level_iff[OF wf, of L' b]
    show "\<exists>b m. on_level s L' b \<and> deref ?h b = Some m \<and> key m = Some K" by blast
  qed
  from 1 2 3 show ?thesis by blast
qed

theorem C4_column_integrity_witness:
  "on_level example_index 1 4 \<and> on_level example_index 2 3 \<and>
   (\<exists>m. deref (heap example_index) 3 = Some m \<and> key m = Some 1) \<and>
   (\<exists>b m. on_level example_index 2 b \<and> deref (heap example_index) b = Some m \<and> key m = Some 1)"
proof -
  have h: "(1::nat) \<le> 3" by simp
  have d: "deref (heap example_index) 4 =
      Some \<lparr>down = Some 3, nxt = None, key = Some 1, val = Some 10\<rparr>"
    by (simp add: example_index_def deref_def)
  from C4_column_integrity[OF h example_index_built example_on_level(5) d]
  have "on_level example_index (Suc 1) 3 \<and>
      (\<exists>m. deref (heap example_index) 3 = Some m \<and> key m = Some 1)"
    and "\<exists>b m. on_level example_index 2 b \<and> deref (heap example_index) b = Some m \<and>
      key m = Some 1"
    by simp_all
  then show ?thesis using example_on_level(5) by (simp add: numeral_2_eq_2)
qed

text \<open>
  C2. On an index reached by upserts in which some node of some level has key \<open>k\<close>,
  \<open>upsert k v\<close> returns, and the state it leaves differs from the one before only in the
  heap, which is the old heap with the value of every node of key \<open>k\<close> set to \<open>v\<close>
  (\<open>set_vals\<close>): no cell is allocated and no pointer changes. Afterwards every node of
  key \<open>k\<close> on a level holds \<open>v\<close>, a level has at most one node of key \<open>k\<close>, and
  \<open>find k\<close> returns \<open>v\<close>. From any reached index, \<open>upsert k v1; upsert k v2; find k\<close>
  returns \<open>v2\<close>.
\<close>

theorem C2_update_in_place:
  assumes "1 \<le> H" and "index_after H rs ops = Some (Inr s)"
  shows "(\<forall>L a. on_level s L a \<and> key_of (heap s) a = Some k \<longrightarrow>
       upsert s k v = Some (Inr (s\<lparr>heap := set_vals k v (heap s)\<rparr>)) \<and>
       length (set_vals k v (heap s)) = length (heap s) \<and>
       (\<forall>L' b. on_level (s\<lparr>heap := set_vals k v (heap s)\<rparr>) L' b \<and>
            key_of (set_vals k v (heap s)) b = Some k \<longrightarrow>
          val_of (set_vals k v (heap s)) b = Some v) \<and>
       (\<forall>L' b c. on_level (s\<lparr>heap := set_vals k v (heap s)\<rparr>) L' b \<and>
            on_level (s\<lparr>heap := set_vals k v (heap s)\<rparr>) L' c \<and>
            key_of (set_vals k v (heap s)) b = Some k \<and>
            key_of (set_vals k v (heap s)) c = Some k \<longrightarrow> b = c) \<and>
       find (s\<lparr>heap := set_vals k v (heap s)\<rparr>) k =
         Some (Inr (Some v, s\<lparr>heap := set_vals k v (heap s)\<rparr>))) \<and>
     (\<exists>s1 s2. upsert s k v1 = Some (Inr s1) \<and> upsert s1 k v2 = Some (Inr s2) \<and>
        find s2 k = Some (Inr (Some v2, s2)))"
proof -
  let ?h = "heap s"
  let ?s' = "s\<lparr>heap := set_vals k v ?h\<rparr>"
  from index_after_wfD[OF assms(1,2)] obtain lvs where
    wf: "wf_index s lvs (map_of (rev ops))" by blast
  let ?M = "map_of (rev ops)"
  have A: "\<forall>L a. on_level s L a \<and> key_of ?h a = Some k \<longrightarrow>
       upsert s k v = Some (Inr ?s') \<and>
       length (set_vals k v ?h) = length ?h \<and>
       (\<forall>L' b. on_level ?s' L' b \<and> key_of (set_vals k v ?h) b = Some k \<longrightarrow>
          val_of (set_vals k v ?h) b = Some v) \<and>
       (\<forall>L' b c. on_level ?s' L' b \<and> on_level ?s' L' c \<and>
            key_of (set_vals k v ?h) b = Some k \<and>
            key_of (set_vals k v ?h) c = Some k \<longrightarrow> b = c) \<and>
       find ?s' k = Some (Inr (Some v, ?s'))"
  proof (intro allI impI)
    fix L a assume a: "on_level s L a \<and> key_of ?h a = Some k"
    then have "a \<in> set (concat lvs)" using on_level_concat[OF wf] by blast
    with a have ex: "\<exists>a\<in>set (concat lvs). key_of ?h a = Some k" by blast
    from upsert_present[OF wf ex, of v] have
      up: "upsert s k v = Some (Inr ?s')" and wf': "wf_index ?s' lvs (?M(k \<mapsto> v))"
      by simp_all
    have f: "find ?s' k = Some (Inr (Some v, ?s'))" using find_wf[OF wf', of k] by simp
    have len: "length (set_vals k v ?h) = length ?h" by (simp add: set_vals_def)
    have vals: "\<forall>L' b. on_level ?s' L' b \<and> key_of (set_vals k v ?h) b = Some k \<longrightarrow>
          val_of (set_vals k v ?h) b = Some v"
      by (simp add: accessors_set_vals)
    have one: "\<forall>L' b c. on_level ?s' L' b \<and> on_level ?s' L' c \<and>
            key_of (set_vals k v ?h) b = Some k \<and>
            key_of (set_vals k v ?h) c = Some k \<longrightarrow> b = c"
    proof (intro allI impI)
      fix L' b c
      assume h: "on_level ?s' L' b \<and> on_level ?s' L' c \<and>
            key_of (set_vals k v ?h) b = Some k \<and> key_of (set_vals k v ?h) c = Some k"
      with on_level_iff[OF wf'] have m: "L' < length lvs" "b \<in> set (lvs ! L')" "c \<in> set (lvs ! L')"
        by simp_all
      from wf' have "tower (set_vals k v ?h) lvs" by (simp add: wf_index_def)
      from tower_nth[OF this m(1)] have "level_ok (set_vals k v ?h) (lvs ! L')" by simp
      from level_key_inj[OF this m(2,3)] h show "b = c" by simp
    qed
    from up len vals one f show "upsert s k v = Some (Inr ?s') \<and>
       length (set_vals k v ?h) = length ?h \<and>
       (\<forall>L' b. on_level ?s' L' b \<and> key_of (set_vals k v ?h) b = Some k \<longrightarrow>
          val_of (set_vals k v ?h) b = Some v) \<and>
       (\<forall>L' b c. on_level ?s' L' b \<and> on_level ?s' L' c \<and>
            key_of (set_vals k v ?h) b = Some k \<and>
            key_of (set_vals k v ?h) c = Some k \<longrightarrow> b = c) \<and>
       find ?s' k = Some (Inr (Some v, ?s'))"
      by blast
  qed
  from upsert_wf[OF wf, of k v1] obtain s1 lvs1 where
    s1: "upsert s k v1 = Some (Inr s1)" "wf_index s1 lvs1 (?M(k \<mapsto> v1))" by blast
  from upsert_wf[OF s1(2), of k v2] obtain s2 lvs2 where
    s2: "upsert s1 k v2 = Some (Inr s2)" "wf_index s2 lvs2 (?M(k \<mapsto> v1, k \<mapsto> v2))" by blast
  have "find s2 k = Some (Inr (Some v2, s2))" using find_wf[OF s2(2), of k] by simp
  with s1(1) s2(1) have B: "\<exists>s1 s2. upsert s k v1 = Some (Inr s1) \<and>
      upsert s1 k v2 = Some (Inr s2) \<and> find s2 k = Some (Inr (Some v2, s2))" by blast
  from A B show ?thesis by blast
qed

theorem C2_update_in_place_witness:
  "on_level example_index 2 3 \<and> key_of (heap example_index) 3 = Some 1 \<and>
   upsert example_index 1 11 =
     Some (Inr (example_index\<lparr>heap := set_vals 1 11 (heap example_index)\<rparr>)) \<and>
   find (example_index\<lparr>heap := set_vals 1 11 (heap example_index)\<rparr>) 1 =
     Some (Inr (Some 11, example_index\<lparr>heap := set_vals 1 11 (heap example_index)\<rparr>)) \<and>
   set_vals 1 11 (heap example_index) =
     [Some \<lparr>down = Some 1, nxt = None, key = None, val = None\<rparr>,
      Some \<lparr>down = Some 2, nxt = Some 4, key = None, val = None\<rparr>,
      Some \<lparr>down = None, nxt = Some 3, key = None, val = None\<rparr>,
      Some \<lparr>down = None, nxt = Some 5, key = Some 1, val = Some 11\<rparr>,
      Some \<lparr>down = Some 3, nxt = None, key = Some 1, val = Some 11\<rparr>,
      Some \<lparr>down = None, nxt = None, key = Some 2, val = Some 20\<rparr>]"
proof -
  have h: "(1::nat) \<le> 3" by simp
  have k: "key_of (heap example_index) 3 = Some 1"
    by (simp add: example_index_def key_of_def deref_def)
  have e: "set_vals 1 11 (heap example_index) =
     [Some \<lparr>down = Some 1, nxt = None, key = None, val = None\<rparr>,
      Some \<lparr>down = Some 2, nxt = Some 4, key = None, val = None\<rparr>,
      Some \<lparr>down = None, nxt = Some 3, key = None, val = None\<rparr>,
      Some \<lparr>down = None, nxt = Some 5, key = Some 1, val = Some 11\<rparr>,
      Some \<lparr>down = Some 3, nxt = None, key = Some 1, val = Some 11\<rparr>,
      Some \<lparr>down = None, nxt = None, key = Some 2, val = Some 20\<rparr>]"
    by (simp add: example_index_def set_vals_def)
  from C2_update_in_place[OF h example_index_built, of 1 11] example_on_level(2) k
  have "upsert example_index 1 11 =
     Some (Inr (example_index\<lparr>heap := set_vals 1 11 (heap example_index)\<rparr>)) \<and>
   find (example_index\<lparr>heap := set_vals 1 11 (heap example_index)\<rparr>) 1 =
     Some (Inr (Some 11, example_index\<lparr>heap := set_vals 1 11 (heap example_index)\<rparr>))"
    by blast
  with example_on_level(2) k e show ?thesis by blast
qed

text \<open>
  C5. The outcomes of \<open>rand()\<close> are the stream \<open>rnd s\<close>. On an index of height \<open>H\<close>
  reached by upserts, in which no node of any level has key \<open>k\<close>, \<open>upsert k v\<close> returns
  and allocates exactly \<open>1 + p\<close> nodes, where \<open>p\<close> is the number of leading outcomes
  with the low bit set among the first \<open>H - 1\<close> outcomes (\<open>promotions\<close>): so at most
  \<open>H\<close>. The nodes of key \<open>k\<close> are the new ones, one on each of the lowest \<open>1 + p\<close>
  levels and none above, and \<open>min (H - 1) (1 + p)\<close> outcomes are consumed.
\<close>

theorem C5_column_height:
  assumes "1 \<le> H" and "index_after H rs ops = Some (Inr s)"
    and "\<forall>L a. on_level s L a \<longrightarrow> key_of (heap s) a \<noteq> Some k"
  shows "\<exists>s'. upsert s k v = Some (Inr s') \<and>
     length (heap s') = length (heap s) + Suc (promotions (H - 1) (rnd s)) \<and>
     Suc (promotions (H - 1) (rnd s)) \<le> H \<and>
     (\<forall>a. key_of (heap s') a = Some k \<longleftrightarrow> length (heap s) \<le> a \<and> a < length (heap s')) \<and>
     (\<forall>L<H. (\<exists>a. on_level s' L a \<and> key_of (heap s') a = Some k) \<longleftrightarrow>
        H - Suc (promotions (H - 1) (rnd s)) \<le> L) \<and>
     (\<forall>L a b. on_level s' L a \<and> on_level s' L b \<and> key_of (heap s') a = Some k \<and>
        key_of (heap s') b = Some k \<longrightarrow> a = b) \<and>
     rnd s' = sdrop (min (H - 1) (Suc (promotions (H - 1) (rnd s)))) (rnd s)"
proof -
  let ?h = "heap s"
  let ?M = "map_of (rev ops)"
  from index_after_wfD[OF assms(1,2)] obtain lvs where
    wf: "wf_index s lvs ?M" and len: "length lvs = H" by blast
  let ?t = "Suc (promotions (H - 1) (rnd s))"
  have no: "\<forall>a\<in>set (concat lvs). key_of ?h a \<noteq> Some k"
    using assms(3) on_level_concat[OF wf] by blast
  from upsert_absent[OF wf no, of v] obtain h' lvs' where
    up: "upsert s k v = Some (Inr (s\<lparr>heap := h', rnd := sdrop (min (H - 1) ?t) (rnd s)\<rparr>))"
    and wf': "wf_index (s\<lparr>heap := h', rnd := sdrop (min (H - 1) ?t) (rnd s)\<rparr>) lvs' (?M(k \<mapsto> v))"
    and lh: "length h' = length ?h + ?t"
    and cr: "col_rel (length ?h) ?t lvs lvs'"
    and old: "\<And>a. a < length ?h \<Longrightarrow> key_of h' a = key_of ?h a"
    and new: "\<And>a. length ?h \<le> a \<Longrightarrow> a < length h' \<Longrightarrow> key_of h' a = Some k"
    unfolding len by blast
  let ?s' = "s\<lparr>heap := h', rnd := sdrop (min (H - 1) ?t) (rnd s)\<rparr>"
  from wf have all: "set (concat lvs) = {..<length ?h}" by (simp add: wf_index_def)
  have tle: "?t \<le> H" using promotions_le[of "H - 1" "rnd s"] assms(1) by simp
  have keys: "\<forall>a. key_of h' a = Some k \<longleftrightarrow> length ?h \<le> a \<and> a < length h'"
  proof
    fix a
    consider "a < length ?h" | "length ?h \<le> a" "a < length h'" | "length h' \<le> a" by linarith
    then show "key_of h' a = Some k \<longleftrightarrow> length ?h \<le> a \<and> a < length h'"
    proof cases
      case 1
      then have "a \<in> set (concat lvs)" using all by simp
      with no have "key_of ?h a \<noteq> Some k" by blast
      with old[OF 1] 1 show ?thesis by simp
    next
      case 2
      with new[of a] show ?thesis by simp
    next
      case 3
      then show ?thesis by (simp add: key_of_def deref_ge)
    qed
  qed
  have lv: "\<forall>L<H. (\<exists>a. on_level ?s' L a \<and> key_of h' a = Some k) \<longleftrightarrow> H - ?t \<le> L"
  proof (intro allI impI)
    fix L assume L: "L < H"
    with len have Ll: "L < length lvs" by simp
    have ll': "length lvs' = H" using col_rel_length[OF cr] len by simp
    have oldL: "\<And>a. a \<in> set (lvs ! L) \<Longrightarrow> a < length ?h"
    proof -
      fix a assume "a \<in> set (lvs ! L)"
      moreover from Ll have "lvs ! L \<in> set lvs" by simp
      ultimately have "a \<in> set (concat lvs)" by auto
      with all show "a < length ?h" by simp
    qed
    have "(\<exists>a. on_level ?s' L a \<and> key_of h' a = Some k) \<longleftrightarrow>
        (\<exists>a\<in>set (lvs' ! L). key_of h' a = Some k)"
      using on_level_iff[OF wf', of L] L ll' by auto
    also have "\<dots> \<longleftrightarrow> H - Suc L < ?t"
    proof (cases "H - Suc L < ?t")
      case True
      with col_rel_nth[OF cr Ll] len have "length ?h + (H - Suc L) \<in> set (lvs' ! L)" by simp
      moreover have "key_of h' (length ?h + (H - Suc L)) = Some k"
        using True lh by (intro new) simp_all
      ultimately show ?thesis using True by blast
    next
      case False
      with col_rel_nth[OF cr Ll] len have "set (lvs' ! L) = set (lvs ! L)" by simp
      moreover have "\<And>a. a \<in> set (lvs ! L) \<Longrightarrow> key_of h' a \<noteq> Some k"
        using keys oldL by (metis not_le)
      ultimately show ?thesis using False by blast
    qed
    also have "\<dots> \<longleftrightarrow> H - ?t \<le> L" using L tle by linarith
    finally show "(\<exists>a. on_level ?s' L a \<and> key_of h' a = Some k) \<longleftrightarrow> H - ?t \<le> L" .
  qed
  have one: "\<forall>L a b. on_level ?s' L a \<and> on_level ?s' L b \<and> key_of h' a = Some k \<and>
        key_of h' b = Some k \<longrightarrow> a = b"
  proof (intro allI impI)
    fix L a b
    assume h: "on_level ?s' L a \<and> on_level ?s' L b \<and> key_of h' a = Some k \<and>
        key_of h' b = Some k"
    with on_level_iff[OF wf'] have m: "L < length lvs'" "a \<in> set (lvs' ! L)" "b \<in> set (lvs' ! L)"
      by simp_all
    from wf' have "tower h' lvs'" by (simp add: wf_index_def)
    from tower_nth[OF this m(1)] have "level_ok h' (lvs' ! L)" by simp
    from level_key_inj[OF this m(2,3)] h show "a = b" by simp
  qed
  show ?thesis
    apply (intro exI[of _ ?s'] conjI)
    subgoal by (rule up)
    subgoal using lh by simp
    subgoal by (rule tle)
    subgoal using keys by simp
    subgoal using lv by simp
    subgoal using one by simp
    subgoal by simp
    done
qed

lemma example_promotions: "promotions 2 (rnd example_index) = 1"
  by (simp add: promotions_def promote_def example_index_def eval_nat_numeral)

lemma example_no_key_3: "key_of (heap example_index) a \<noteq> Some 3"
proof (cases "a < 6")
  case True
  then consider "a = 0" | "a = 1" | "a = 2" | "a = 3" | "a = 4" | "a = 5" by linarith
  then show ?thesis by cases (simp_all add: key_of_def deref_def example_index_def)
next
  case False
  then show ?thesis by (simp add: key_of_def deref_def example_index_def)
qed

theorem C5_column_height_witness:
  "\<exists>s'. upsert example_index 3 30 = Some (Inr s') \<and>
     length (heap s') = length (heap example_index) + 2 \<and>
     (\<exists>a. on_level s' 1 a \<and> key_of (heap s') a = Some 3) \<and>
     \<not> (\<exists>a. on_level s' 0 a \<and> key_of (heap s') a = Some 3) \<and>
     rnd s' = cycle [0, 1, 0]"
proof -
  have h: "(1::nat) \<le> 3" by simp
  have n: "\<forall>L a. on_level example_index L a \<longrightarrow> key_of (heap example_index) a \<noteq> Some 3"
    using example_no_key_3 by blast
  have p: "promotions (3 - 1) (rnd example_index) = 1" using example_promotions by simp
  have r: "sdrop (min (3 - 1) (Suc 1)) (rnd example_index) = cycle [0, 1, 0]"
    by (simp add: example_index_def eval_nat_numeral)
  from C5_column_height[OF h example_index_built n, of 30] obtain s' where
    s': "upsert example_index 3 30 = Some (Inr s')"
      "length (heap s') = length (heap example_index) + Suc 1"
      "\<forall>L<3. (\<exists>a. on_level s' L a \<and> key_of (heap s') a = Some 3) \<longleftrightarrow> 3 - Suc 1 \<le> L"
      "rnd s' = cycle [0, 1, 0]"
    unfolding p r by blast
  from s'(3) have "\<exists>a. on_level s' 1 a \<and> key_of (heap s') a = Some 3"
    "\<not> (\<exists>a. on_level s' 0 a \<and> key_of (heap s') a = Some 3)"
    by simp_all
  with s'(1,2,4) show ?thesis by (intro exI[of _ s']) simp
qed

text \<open>
  C7. \<open>find\<close> is given the state and hands it back. Whenever \<open>find k\<close> returns in a
  state \<open>s\<close>, whatever that state is, the state it leaves is \<open>s\<close> itself, and \<open>find k\<close>
  run again there returns the same result and the same state. On an index reached by
  upserts from a constructed one \<open>find k\<close> does return. (\<open>findInLevel\<close> reads the heap and
  returns an address only.)
\<close>

theorem C7_find_leaves_state:
  "(find s k = Some (Inr (r, s')) \<longrightarrow> s' = s \<and> find s' k = Some (Inr (r, s'))) \<and>
   (1 \<le> H \<and> index_after H rs ops = Some (Inr s) \<longrightarrow> (\<exists>r. find s k = Some (Inr (r, s))))"
proof (intro conjI impI)
  assume f: "find s k = Some (Inr (r, s'))"
  then show "s' = s" by (rule find_frame)
  with f show "find s' k = Some (Inr (r, s'))" by simp
next
  assume "1 \<le> H \<and> index_after H rs ops = Some (Inr s)"
  with index_after_wfD[of H rs ops s] obtain lvs where "wf_index s lvs (map_of (rev ops))"
    by blast
  from find_wf[OF this, of k] show "\<exists>r. find s k = Some (Inr (r, s))" by blast
qed

theorem C7_find_leaves_state_witness:
  "find example_index 2 = Some (Inr (Some 20, example_index)) \<and>
   index_after 3 (cycle [1, 0, 0]) [(1, 10), (2, 20)] = Some (Inr example_index) \<and>
   (\<exists>r. find example_index 7 = Some (Inr (r, example_index)))"
proof -
  have f: "find example_index 2 = Some (Inr (Some 20, example_index))"
    by (simp add: run_simps example_index_def)
  have h: "(1::nat) \<le> 3" by simp
  from C7_find_leaves_state[of example_index 7 None example_index 3 "cycle [1, 0, 0]"
      "[(1, 10), (2, 20)]"] h example_index_built
  have "\<exists>r. find example_index 7 = Some (Inr (r, example_index))" by blast
  moreover from C7_find_leaves_state[of example_index 2 "Some 20" example_index] f
  have "find example_index 2 = Some (Inr (Some 20, example_index))" by blast
  ultimately show ?thesis using example_index_built by blast
qed

lemma SkipList_zero:
  "SkipList 0 rs = Inr (fresh rs) \<and> upsert (fresh rs) k v = Some (Inl OutOfRange) \<and>
   find (fresh rs) k = Some (Inl OutOfRange)"
  by (simp add: SkipList_def upsert_def find_def fresh_def)

text \<open>
  C9. The constructor does not reject height 0 (it returns an index with no sentinel, on
  which \<open>upsert\<close> and \<open>find\<close> read \<open>heads[0]\<close> out of range: \<open>SkipList_zero\<close>), so height
  at least 1 is a precondition. Under it the constructor returns an index with exactly
  \<open>H\<close> distinct sentinels, each without key, value and successor and linked down to the
  next one, the last with a null down pointer; and after any sequence of upserts
  \<open>heads\<close> still has \<open>H\<close> entries and \<open>upsert\<close> and \<open>find\<close> return a result, never the
  out-of-range fault.
\<close>

theorem C9_height_precondition:
  assumes "1 \<le> H"
  shows "\<exists>s. SkipList H rs = Inr s \<and> length (heads s) = H \<and> distinct (heads s) \<and>
     (\<forall>i<H. deref (heap s) (heads s ! i) =
        Some \<lparr>down = (if Suc i < H then Some (heads s ! Suc i) else None), nxt = None,
              key = None, val = None\<rparr>) \<and>
     (\<forall>ops s'. upserts s ops = Some (Inr s') \<longrightarrow>
        length (heads s') = H \<and>
        (\<forall>k v. \<exists>s''. upsert s' k v = Some (Inr s'')) \<and>
        (\<forall>k. \<exists>r. find s' k = Some (Inr (r, s'))))"
proof -
  let ?s = "\<lparr>heap = sentinel_heap H, heads = [0..<H], rnd = rs\<rparr> :: ('a, 'b) state"
  from assms have H: "0 < H" by simp
  have c: "SkipList H rs = Inr ?s" by (rule SkipList_eq)
  have sent: "\<forall>i<H. deref (heap ?s) (heads ?s ! i) =
        Some \<lparr>down = (if Suc i < H then Some (heads ?s ! Suc i) else None), nxt = None,
              key = None, val = None\<rparr>"
    by (simp add: deref_sentinel_heap)
  have after: "\<forall>ops s'. upserts ?s ops = Some (Inr s') \<longrightarrow>
        length (heads s') = H \<and>
        (\<forall>k v. \<exists>s''. upsert s' k v = Some (Inr s'')) \<and>
        (\<forall>k. \<exists>r. find s' k = Some (Inr (r, s')))"
  proof (intro allI impI)
    fix ops s' assume u: "upserts ?s ops = Some (Inr s')"
    from upserts_wf[OF wf_index_SkipList[OF H, of rs], of ops] u obtain lvs where
      wf: "wf_index s' lvs (Map.empty ++ map_of (rev ops))" and len: "length lvs = H"
      by auto
    have "length (heads s') = H" using wf_index_heads[OF wf] len by simp
    moreover have "\<forall>k v. \<exists>s''. upsert s' k v = Some (Inr s'')"
      using upsert_wf[OF wf] by blast
    moreover have "\<forall>k. \<exists>r. find s' k = Some (Inr (r, s'))"
      using find_wf[OF wf] by blast
    ultimately show "length (heads s') = H \<and>
        (\<forall>k v. \<exists>s''. upsert s' k v = Some (Inr s'')) \<and>
        (\<forall>k. \<exists>r. find s' k = Some (Inr (r, s')))" by blast
  qed
  show ?thesis
    apply (intro exI[of _ ?s] conjI)
    subgoal by (rule c)
    subgoal by simp
    subgoal by simp
    subgoal by (rule sent)
    subgoal by (rule after)
    done
qed

theorem C9_height_precondition_witness:
  "\<exists>s. (SkipList 2 (sconst 0) :: fault + (int, int) state) = Inr s \<and> heads s = [0, 1] \<and>
     deref (heap s) 0 = Some \<lparr>down = Some 1, nxt = None, key = None, val = None\<rparr> \<and>
     deref (heap s) 1 = Some \<lparr>down = None, nxt = None, key = None, val = None\<rparr> \<and>
     (\<exists>s''. upsert s 5 50 = Some (Inr s'')) \<and> (\<exists>r. find s 5 = Some (Inr (r, s)))"
proof -
  have h: "(1::nat) \<le> 2" by simp
  have e: "(SkipList 2 (sconst 0) :: fault + (int, int) state) =
      Inr \<lparr>heap = [Some \<lparr>down = Some 1, nxt = None, key = None, val = None\<rparr>,
                   Some \<lparr>down = None, nxt = None, key = None, val = None\<rparr>],
           heads = [0, 1], rnd = sconst 0\<rparr>"
    by (simp add: run_simps)
  from C9_height_precondition[OF h, of "sconst 0", where 'a = int and 'b = int] e
  have "\<forall>ops s'. upserts \<lparr>heap = [Some \<lparr>down = Some 1, nxt = None, key = None, val = None\<rparr>,
                   Some \<lparr>down = None, nxt = None, key = None, val = None\<rparr>],
           heads = [0, 1], rnd = sconst 0\<rparr> ops = Some (Inr s') \<longrightarrow>
        length (heads s') = 2 \<and>
        (\<forall>k v. \<exists>s''. upsert s' (k::int) (v::int) = Some (Inr s'')) \<and>
        (\<forall>k. \<exists>r. find s' k = Some (Inr (r, s')))"
    by auto
  from this[rule_format, of "[]"] e show ?thesis
    by (simp add: deref_def)
qed

text \<open>
  C6. Built with the same height (at least 1), fed the same outcomes of \<open>rand()\<close> and the
  same sequence of upserts by a single thread, the sequential index and the single-writer
  index both come into existence, their states hold the same nodes, level heads and
  remaining outcomes, and \<open>find k\<close> gives the same result on both for every key \<open>k\<close>.
\<close>

theorem C6_variants_agree:
  assumes "1 \<le> H"
  shows "\<exists>s. index_after H rs ops = Some (Inr s) \<and> index_after_sw H rs ops = Some (Inr s) \<and>
     (\<forall>k. find_sw s k = find s k \<and> (\<exists>r. find s k = Some (Inr (r, s))))"
proof -
  from assms have "0 < H" by simp
  from index_after_wf[OF this, of rs ops] obtain s lvs where
    s: "index_after H rs ops = Some (Inr s)" and wf: "wf_index s lvs (map_of (rev ops))"
    by blast
  have "\<forall>k. find_sw s k = find s k \<and> (\<exists>r. find s k = Some (Inr (r, s)))"
    using find_sw_wf[OF wf] find_wf[OF wf] by blast
  with s show ?thesis by (intro exI[of _ s]) (simp add: index_after_sw_eq)
qed

theorem C6_variants_agree_witness:
  "index_after_sw 3 (cycle [1, 0, 0]) [(1, 10), (2, 20)] = Some (Inr example_index) \<and>
   find_sw example_index 1 = Some (Inr (Some 10, example_index)) \<and>
   find example_index 1 = Some (Inr (Some 10, example_index)) \<and>
   find_sw example_index 3 = Some (Inr (None, example_index))"
proof -
  have h: "(1::nat) \<le> 3" by simp
  from C6_variants_agree[OF h, of "cycle [1, 0, 0]" "[(1::int, 10::int), (2, 20)]"]
  have a: "index_after_sw 3 (cycle [1, 0, 0]) [(1, 10), (2, 20)] = Some (Inr example_index)"
    and b: "\<And>k. find_sw example_index k = find example_index k"
    by (simp_all add: example_index_built)
  have "find example_index 1 = Some (Inr (Some 10, example_index))"
    "find example_index 3 = Some (Inr (None, example_index))"
    by (simp_all add: run_simps example_index_def)
  with a b show ?thesis by simp
qed

text \<open>
  C10. On an index reached by upserts, in either variant, \<open>clear\<close> returns; it leaves
  \<^verbatim>\<open>heads\<close> empty and every node released, sentinels included, so it does not leave an
  empty index that could be used again: every later \<open>upsert\<close> and \<open>find\<close> reads
  \<^verbatim>\<open>heads[0]\<close> of the empty vector, which is the out-of-range fault, for every key and
  value. What remains defined is what the destructor runs, \<open>clear\<close> once more, which
  finds nothing to do.
\<close>

theorem C10_clear_leaves_no_index:
  assumes "1 \<le> H" and "index_after H rs ops = Some (Inr s)"
  shows "(\<exists>s'. clear s = Some (Inr s') \<and> heads s' = [] \<and> (\<forall>a. deref (heap s') a = None) \<and>
        (\<forall>k v. upsert s' k v = Some (Inl OutOfRange)) \<and>
        (\<forall>k. find s' k = Some (Inl OutOfRange)) \<and> clear s' = Some (Inr s')) \<and>
     index_after_sw H rs ops = Some (Inr s) \<and>
     (\<exists>t. clear_sw s = Some (Inr t) \<and> heads t = [] \<and> (\<forall>a. deref (heap t) a = None) \<and>
        (\<forall>k v. upsert_sw t k v = Some (Inl OutOfRange)) \<and>
        (\<forall>k. find_sw t k = Some (Inl OutOfRange)) \<and> clear_sw t = Some (Inr t))"
proof -
  from index_after_wfD[OF assms] obtain lvs where wf: "wf_index s lvs (map_of (rev ops))"
    by blast
  from clear_wf[OF wf] obtain h' where
    h': "clear s = Some (Inr (s\<lparr>heap := h', heads := []\<rparr>))" "\<forall>a. deref h' a = None" by blast
  from clear_sw_wf[OF wf] obtain h'' where
    h'': "clear_sw s = Some (Inr (s\<lparr>heap := h'', heads := []\<rparr>))" "\<forall>a. deref h'' a = None" by blast
  have e: "heads (s\<lparr>heap := h', heads := []\<rparr>) = []" "heads (s\<lparr>heap := h'', heads := []\<rparr>) = []"
    by simp_all
  have A: "\<exists>s'. clear s = Some (Inr s') \<and> heads s' = [] \<and> (\<forall>a. deref (heap s') a = None) \<and>
        (\<forall>k v. upsert s' k v = Some (Inl OutOfRange)) \<and>
        (\<forall>k. find s' k = Some (Inl OutOfRange)) \<and> clear s' = Some (Inr s')"
    apply (intro exI[of _ "s\<lparr>heap := h', heads := []\<rparr>"] conjI allI)
    subgoal by (rule h'(1))
    subgoal by simp
    subgoal using h'(2) by simp
    subgoal by (rule cleared_faults(1)[OF e(1)])
    subgoal by (rule cleared_faults(2)[OF e(1)])
    subgoal by (rule cleared_faults(3)[OF e(1)])
    done
  have B: "\<exists>t. clear_sw s = Some (Inr t) \<and> heads t = [] \<and> (\<forall>a. deref (heap t) a = None) \<and>
        (\<forall>k v. upsert_sw t k v = Some (Inl OutOfRange)) \<and>
        (\<forall>k. find_sw t k = Some (Inl OutOfRange)) \<and> clear_sw t = Some (Inr t)"
    apply (intro exI[of _ "s\<lparr>heap := h'', heads := []\<rparr>"] conjI allI)
    subgoal by (rule h''(1))
    subgoal by simp
    subgoal using h''(2) by simp
    subgoal by (rule cleared_faults(4)[OF e(2)])
    subgoal by (rule cleared_faults(5)[OF e(2)])
    subgoal by (rule cleared_faults(6)[OF e(2)])
    done
  from A B assms(2) show ?thesis by (simp add: index_after_sw_eq)
qed

lemma example_clear:
  "clear example_index =
     Some (Inr \<lparr>heap = [None, None, None, None, None, None], heads = [], rnd = cycle [1, 0, 0]\<rparr>)"
  "clear_sw example_index =
     Some (Inr \<lparr>heap = [None, None, None, None, None, None], heads = [], rnd = cycle [1, 0, 0]\<rparr>)"
  by (simp_all add: clear_def clear_sw_def clear_chain.simps clear_loop_sw.simps deref_def
      example_index_def)

theorem C10_clear_leaves_no_index_witness:
  "clear example_index =
     Some (Inr \<lparr>heap = [None, None, None, None, None, None], heads = [], rnd = cycle [1, 0, 0]\<rparr>) \<and>
   upsert \<lparr>heap = [None, None, None, None, None, None], heads = [], rnd = cycle [1, 0, 0]\<rparr>
     (1::int) (10::int) = Some (Inl OutOfRange) \<and>
   find (\<lparr>heap = [None, None, None, None, None, None], heads = [], rnd = cycle [1, 0, 0]\<rparr>
     :: (int, int) state) 1 = Some (Inl OutOfRange) \<and>
   find_sw (\<lparr>heap = [None, None, None, None, None, None], heads = [], rnd = cycle [1, 0, 0]\<rparr>
     :: (int, int) state) 1 = Some (Inl OutOfRange)"
proof -
  have h: "(1::nat) \<le> 3" by simp
  from C10_clear_leaves_no_index[OF h example_index_built] show ?thesis
    by (simp add: example_clear)
qed

end
